theory Spec2Isabelle
  imports Main "HOL-Library.AList"
begin

section \<open>JavaScript values, objects and errors\<close>

text \<open>
  The storage layer of Subflow keeps named word sets and scalar settings in
  \<^verbatim>\<open>chrome.storage.local\<close>.  A stored value is a string, a boolean, a number or an
  array of strings (a set of words kept as an array).  An object used as a dictionary
  is a map from its own keys to values.  Reading \<^verbatim>\<open>obj[k]\<close> gives the own value of
  \<open>k\<close>; for a key the object does not own it gives the member of \<^verbatim>\<open>Object.prototype\<close>
  of that name when there is one (a function, or the prototype itself for
  \<^verbatim>\<open>__proto__\<close>), here \<open>VInherited k\<close>, and \<^verbatim>\<open>undefined\<close>, here \<open>None\<close>, otherwise.
  Writing \<^verbatim>\<open>obj[k] = v\<close> is modelled as creating or replacing the own property; for
  the one key \<^verbatim>\<open>__proto__\<close> JavaScript sets the prototype instead, which is outside
  the model.
\<close>

type_synonym key = string

datatype jsval = VStr string | VBool bool | VNum int | VArr "string list" | VInherited key

type_synonym jsobj = "key \<rightharpoonup> jsval"

definition prototype_members :: "key list" where
  "prototype_members =
     [''constructor'', ''__defineGetter__'', ''__defineSetter__'', ''hasOwnProperty'',
      ''__lookupGetter__'', ''__lookupSetter__'', ''isPrototypeOf'', ''propertyIsEnumerable'',
      ''toString'', ''valueOf'', ''__proto__'', ''toLocaleString'']"

definition js_read :: "jsobj \<Rightarrow> key \<Rightarrow> jsval option" where
  "js_read obj k =
     (case obj k of
        Some v \<Rightarrow> Some v
      | None \<Rightarrow> if k \<in> set prototype_members then Some (VInherited k) else None)"

datatype err = Uninitialized | AdapterFailure | TypeError | CallbackError

text \<open>Truthiness of a value, as \<^verbatim>\<open>v ? a : b\<close> and \<^verbatim>\<open>v || b\<close> test it.\<close>

fun truthy :: "jsval \<Rightarrow> bool" where
  "truthy (VStr s) = (s \<noteq> [])"
| "truthy (VBool b) = b"
| "truthy (VNum n) = (n \<noteq> 0)"
| "truthy (VArr xs) = True"
| "truthy (VInherited k) = True"

text \<open>
  A JavaScript \<^verbatim>\<open>Set\<close> of strings is the list of its elements in insertion order,
  without duplicates.  \<^verbatim>\<open>new Set(v)\<close> iterates \<open>v\<close>: an array gives its elements, a
  string its characters, and a boolean, a number, a function or a plain object is not
  iterable (a TypeError).
\<close>

definition set_add :: "string list \<Rightarrow> string \<Rightarrow> string list" where
  "set_add s x = (if x \<in> set s then s else s @ [x])"

definition set_delete :: "string list \<Rightarrow> string \<Rightarrow> string list" where
  "set_delete s x = remove1 x s"

fun new_Set :: "jsval \<Rightarrow> err + string list" where
  "new_Set (VArr xs) = Inr (fold (\<lambda>x s. set_add s x) xs [])"
| "new_Set (VStr cs) = Inr (fold (\<lambda>c s. set_add s [c]) cs [])"
| "new_Set (VBool b) = Inl TypeError"
| "new_Set (VNum n) = Inl TypeError"
| "new_Set (VInherited k) = Inl TypeError"

text \<open>The elements of a cached or stored value read as a set: those of an array.\<close>

fun members :: "jsval option \<Rightarrow> string set" where
  "members (Some (VArr xs)) = set xs"
| "members v = {}"

subsection \<open>Objects whose key order matters\<close>

text \<open>
  \<^verbatim>\<open>Object.keys\<close> lists the integer-like keys of an object first, in ascending numeric
  order, and then the other keys in the order they were created.  A key is
  integer-like when it is the decimal numeral, without leading zeros, of a number below
  \<open>2\<^sup>3\<^sup>2 - 1\<close>.  An object whose key order is observed is an association list kept
  in that order; \<open>obj_put\<close> is \<^verbatim>\<open>obj[k] = v\<close>.
\<close>

definition num_val :: "string \<Rightarrow> nat" where
  "num_val s = fold (\<lambda>c n. 10 * n + (of_char c - 48)) s 0"

definition is_index :: "key \<Rightarrow> bool" where
  "is_index s =
     (s \<noteq> [] \<and> list_all (\<lambda>c. c \<in> set ''0123456789'') s \<and>
      (length s = 1 \<or> take 1 s \<noteq> ''0'') \<and> num_val s < 4294967295)"

definition precedes :: "key \<Rightarrow> key \<Rightarrow> bool" where
  "precedes k k' = (is_index k \<and> (if is_index k' then num_val k < num_val k' else True))"

fun insert_key :: "key \<Rightarrow> 'v \<Rightarrow> (key \<times> 'v) list \<Rightarrow> (key \<times> 'v) list" where
  "insert_key k v [] = [(k, v)]"
| "insert_key k v ((k', v') # al) =
     (if precedes k k' then (k, v) # (k', v') # al else (k', v') # insert_key k v al)"

definition obj_put :: "key \<Rightarrow> 'v \<Rightarrow> (key \<times> 'v) list \<Rightarrow> (key \<times> 'v) list" where
  "obj_put k v al = (if k \<in> fst ` set al then AList.update k v al else insert_key k v al)"

definition js_ordered :: "(key \<times> 'v) list \<Rightarrow> bool" where
  "js_ordered al = sorted_wrt (\<lambda>x y. \<not> precedes (fst y) (fst x)) al"

section \<open>The backing store adapter\<close>

text \<open>
  \<^verbatim>\<open>chrome.storage.local\<close> is the environment of the program: a key-value store whose
  \<^verbatim>\<open>get\<close> answers a query from the stored items and whose \<^verbatim>\<open>set\<close> overwrites the keys
  it is given.  Either call may be rejected.  The state carries the store, the outcomes
  of the coming adapter calls (\<open>True\<close>: the call succeeds; an exhausted list: every
  further call succeeds) and a log of the calls made.
\<close>

datatype query = AllKeys | Keys "key list" | Defaults jsobj

datatype call = Read query bool | Write jsobj bool

record manager =
  cache :: "jsobj option"
  initialized :: bool
  queue :: "err option"
  store :: jsobj
  script :: "bool list"
  calls :: "call list"

text \<open>
  \<open>cache\<close> is \<^verbatim>\<open>this.cache\<close> (\<open>None\<close> is \<^verbatim>\<open>null\<close>), \<open>queue\<close> is the settled state of
  the promise \<^verbatim>\<open>this.queue\<close>: \<open>None\<close> when it is fulfilled, \<open>Some e\<close> when it is
  rejected with \<open>e\<close>.
\<close>

definition new_StorageManager :: "jsobj \<Rightarrow> bool list \<Rightarrow> manager" where
  "new_StorageManager s outcomes =
     \<lparr>cache = None, initialized = False, queue = None, store = s, script = outcomes, calls = []\<rparr>"

definition outcome :: "manager \<Rightarrow> bool \<times> manager" where
  "outcome st = (case script st of [] \<Rightarrow> (True, st) | b # bs \<Rightarrow> (b, st\<lparr>script := bs\<rparr>))"

fun answer :: "query \<Rightarrow> jsobj \<Rightarrow> jsobj" where
  "answer AllKeys s = s"
| "answer (Keys ks) s = (\<lambda>k. if k \<in> set ks then s k else None)"
| "answer (Defaults d) s =
     (\<lambda>k. case d k of None \<Rightarrow> None | Some v \<Rightarrow> (case s k of None \<Rightarrow> Some v | Some w \<Rightarrow> Some w))"

definition storage_get :: "query \<Rightarrow> manager \<Rightarrow> (err + jsobj) \<times> manager" where
  "storage_get q st =
     (case outcome st of (ok, st1) \<Rightarrow>
        (if ok then Inr (answer q (store st1)) else Inl AdapterFailure,
         st1\<lparr>calls := calls st1 @ [Read q ok]\<rparr>))"

definition storage_set :: "jsobj \<Rightarrow> manager \<Rightarrow> (err + unit) \<times> manager" where
  "storage_set m st =
     (case outcome st of (ok, st1) \<Rightarrow>
        (if ok then (Inr (), st1\<lparr>store := store st1 ++ m, calls := calls st1 @ [Write m ok]\<rparr>)
         else (Inl AdapterFailure, st1\<lparr>calls := calls st1 @ [Write m ok]\<rparr>)))"

section \<open>StorageManager (src/js/storage/storage-manager.js)\<close>

subsection \<open>The promise chain\<close>

text \<open>
  Every public operation runs \<^verbatim>\<open>resultPromise = this.queue.then(body)\<close> and then stores
  \<^verbatim>\<open>this.queue = resultPromise\<close>.  \<^verbatim>\<open>then\<close> with one callback runs the callback only
  when the promise is fulfilled; a rejected promise passes its rejection on and the
  callback is skipped.  Operations are taken in the order they were enqueued, each
  after its predecessor has settled.
\<close>

definition enqueue :: "(manager \<Rightarrow> (err + 'a) \<times> manager) \<Rightarrow> manager \<Rightarrow> (err + 'a) \<times> manager" where
  "enqueue body st =
     (case queue st of
        Some e \<Rightarrow> (Inl e, st)
      | None \<Rightarrow>
          (case body st of
             (Inl e, st1) \<Rightarrow> (Inl e, st1\<lparr>queue := Some e\<rparr>)
           | (Inr v, st1) \<Rightarrow> (Inr v, st1\<lparr>queue := None\<rparr>)))"

text \<open>
  \<^verbatim>\<open>moveToSet\<close> alone stores \<^verbatim>\<open>this.queue = resultPromise.catch(() => Promise.resolve())\<close>:
  whatever the result, the queue it leaves is fulfilled.
\<close>

definition enqueue_caught :: "(manager \<Rightarrow> (err + 'a) \<times> manager) \<Rightarrow> manager \<Rightarrow> (err + 'a) \<times> manager" where
  "enqueue_caught body st =
     (case queue st of
        Some e \<Rightarrow> (Inl e, st\<lparr>queue := None\<rparr>)
      | None \<Rightarrow> (case body st of (r, st1) \<Rightarrow> (r, st1\<lparr>queue := None\<rparr>)))"

subsection \<open>initialize and get\<close>

definition initialize :: "query \<Rightarrow> manager \<Rightarrow> (err + jsobj option) \<times> manager" where
  "initialize schema st =
     (if initialized st then (Inr (cache st), st)
      else enqueue (\<lambda>s.
             case storage_get schema s of
               (Inl e, s1) \<Rightarrow> (Inl e, s1)
             | (Inr data, s1) \<Rightarrow> (Inr (Some data), s1\<lparr>cache := Some data, initialized := True\<rparr>)) st)"

datatype keys_arg = OneKey key | KeyArray "key list" | DefaultsObject "(key \<times> jsval) list"

fun keyList :: "keys_arg \<Rightarrow> key list" where
  "keyList (DefaultsObject d) = map fst d"
| "keyList (KeyArray ks) = ks"
| "keyList (OneKey k) = [k]"

text \<open>
  The result object of \<^verbatim>\<open>get\<close> is built by \<^verbatim>\<open>result[key] = this.cache[key]\<close> for each
  requested key: an association list whose value is \<open>None\<close> where the read gives
  \<^verbatim>\<open>undefined\<close>.  The argument is a key, an array of keys or an object of defaults, as
  the documentation of \<^verbatim>\<open>get\<close> says.  With a \<^verbatim>\<open>null\<close> cache the first read throws;
  when no key is requested there is none.
\<close>

definition get_body :: "keys_arg \<Rightarrow> manager \<Rightarrow> (err + (key \<times> jsval option) list) \<times> manager" where
  "get_body keys st =
     (if \<not> initialized st then (Inl Uninitialized, st)
      else case cache st of
             None \<Rightarrow> (if keyList keys = [] then Inr [] else Inl TypeError, st)
           | Some c \<Rightarrow> (Inr (fold (\<lambda>k r. obj_put k (js_read c k) r) (keyList keys) []), st))"

definition get_op :: "keys_arg \<Rightarrow> manager \<Rightarrow> (err + (key \<times> jsval option) list) \<times> manager" where
  "get_op keys = enqueue (get_body keys)"

subsection \<open>Writes: _setInternal, set, update\<close>

definition setInternal :: "jsobj \<Rightarrow> bool \<Rightarrow> manager \<Rightarrow> (err + unit) \<times> manager" where
  "setInternal items skipRemoteRead st =
     (if \<not> initialized st then (Inl Uninitialized, st)
      else
        case (if skipRemoteRead
              then (Inr (case cache st of None \<Rightarrow> Map.empty | Some c \<Rightarrow> c), st)
              else storage_get AllKeys st) of
          (Inl e, st1) \<Rightarrow> (Inl e, st1)
        | (Inr baseRemote, st1) \<Rightarrow>
            (case storage_set (baseRemote ++ items) st1 of
               (Inl e, st2) \<Rightarrow> (Inl e, st2)
             | (Inr u, st2) \<Rightarrow> (Inr (), st2\<lparr>cache := Some (baseRemote ++ items)\<rparr>)))"

definition set_op :: "jsobj \<Rightarrow> manager \<Rightarrow> (err + unit) \<times> manager" where
  "set_op items = enqueue (setInternal items False)"

text \<open>
  \<^verbatim>\<open>update(key, updateFn)\<close>: the callback receives the stored value of the key, or what
  \<^verbatim>\<open>this.cache[key]\<close> reads when the store has none, and may itself throw.  The test
  \<^verbatim>\<open>remoteObj.hasOwnProperty(key)\<close> calls the own property of that name when the answer
  has one, which is not a function.
\<close>

definition update_body ::
  "key \<Rightarrow> (jsval option \<Rightarrow> err + jsval) \<Rightarrow> manager \<Rightarrow> (err + jsval) \<times> manager" where
  "update_body k updateFn st =
     (if \<not> initialized st then (Inl Uninitialized, st)
      else
        case storage_get (Keys [k]) st of
          (Inl e, st1) \<Rightarrow> (Inl e, st1)
        | (Inr remoteObj, st1) \<Rightarrow>
            (case (case remoteObj k of
                     Some v \<Rightarrow> if k = ''hasOwnProperty'' then Inl TypeError else Inr (Some v)
                   | None \<Rightarrow>
                       (case cache st1 of
                          None \<Rightarrow> Inl TypeError
                        | Some c \<Rightarrow> Inr (js_read c k))) of
               Inl e \<Rightarrow> (Inl e, st1)
             | Inr currentValue \<Rightarrow>
                 (case updateFn currentValue of
                    Inl e \<Rightarrow> (Inl e, st1)
                  | Inr newValue \<Rightarrow>
                      (case setInternal [k \<mapsto> newValue] False st1 of
                         (Inl e, st2) \<Rightarrow> (Inl e, st2)
                       | (Inr u, st2) \<Rightarrow> (Inr newValue, st2)))))"

definition update_op ::
  "key \<Rightarrow> (jsval option \<Rightarrow> err + jsval) \<Rightarrow> manager \<Rightarrow> (err + jsval) \<times> manager" where
  "update_op k updateFn = enqueue (update_body k updateFn)"

definition addToSet :: "key \<Rightarrow> string \<Rightarrow> manager \<Rightarrow> (err + jsval) \<times> manager" where
  "addToSet k item =
     update_op k (\<lambda>cur.
       case new_Set (case cur of None \<Rightarrow> VArr [] | Some v \<Rightarrow> v) of
         Inl e \<Rightarrow> Inl e
       | Inr s \<Rightarrow> Inr (VArr (set_add s item)))"

definition removeFromSet :: "key \<Rightarrow> string \<Rightarrow> manager \<Rightarrow> (err + jsval) \<times> manager" where
  "removeFromSet k item =
     update_op k (\<lambda>cur.
       case new_Set (case cur of None \<Rightarrow> VArr [] | Some v \<Rightarrow> v) of
         Inl e \<Rightarrow> Inl e
       | Inr s \<Rightarrow> Inr (VArr (set_delete s item)))"

subsection \<open>moveToSet\<close>

text \<open>
  \<^verbatim>\<open>(remote && remote[k]) ? remote[k] : (this.cache[k] || [])\<close>: what \<^verbatim>\<open>remote[k]\<close>
  reads when it is truthy, else what \<^verbatim>\<open>this.cache[k]\<close> reads when that is truthy, else
  the empty array.  Reading a property of a \<^verbatim>\<open>null\<close> cache throws.
\<close>

definition pick :: "jsobj \<Rightarrow> jsobj option \<Rightarrow> key \<Rightarrow> err + jsval" where
  "pick remote c k =
     (case (case js_read remote k of Some v \<Rightarrow> if truthy v then Some v else None | None \<Rightarrow> None) of
        Some v \<Rightarrow> Inr v
      | None \<Rightarrow>
          (case c of
             None \<Rightarrow> Inl TypeError
           | Some cm \<Rightarrow>
               (case js_read cm k of
                  Some w \<Rightarrow> if truthy w then Inr w else Inr (VArr [])
                | None \<Rightarrow> Inr (VArr []))))"

definition moveToSet_body :: "key \<Rightarrow> key \<Rightarrow> string \<Rightarrow> manager \<Rightarrow> (err + unit) \<times> manager" where
  "moveToSet_body fromKey toKey item st =
     (case storage_get (Keys [fromKey, toKey]) st of
        (Inl e, st1) \<Rightarrow> (Inl e, st1)
      | (Inr remote, st1) \<Rightarrow>
          (case pick remote (cache st1) fromKey of
             Inl e \<Rightarrow> (Inl e, st1)
           | Inr fromArray \<Rightarrow>
          (case pick remote (cache st1) toKey of
             Inl e \<Rightarrow> (Inl e, st1)
           | Inr toArray \<Rightarrow>
          (case new_Set fromArray of
             Inl e \<Rightarrow> (Inl e, st1)
           | Inr fromSet \<Rightarrow>
          (case new_Set toArray of
             Inl e \<Rightarrow> (Inl e, st1)
           | Inr toSet \<Rightarrow>
               setInternal [fromKey \<mapsto> VArr (set_delete fromSet item),
                            toKey \<mapsto> VArr (set_add toSet item)] True st1)))))"

definition moveToSet :: "key \<Rightarrow> key \<Rightarrow> string \<Rightarrow> manager \<Rightarrow> (err + unit) \<times> manager" where
  "moveToSet fromKey toKey item = enqueue_caught (moveToSet_body fromKey toKey item)"

subsection \<open>Operations as data\<close>

text \<open>
  The queued operations a caller can issue, and what each resolves to, so that a
  sequence of calls can be run and a statement can range over the kinds of operation.
\<close>

datatype op =
    Get keys_arg
  | SetItems jsobj
  | Update key "jsval option \<Rightarrow> err + jsval"
  | MoveToSet key key string

datatype reply = Values "(key \<times> jsval option) list" | Done | NewValue jsval

definition lift_reply :: "('a \<Rightarrow> reply) \<Rightarrow> (err + 'a) \<times> manager \<Rightarrow> (err + reply) \<times> manager" where
  "lift_reply f p = (case p of (Inl e, st) \<Rightarrow> (Inl e, st) | (Inr v, st) \<Rightarrow> (Inr (f v), st))"

fun run_op :: "op \<Rightarrow> manager \<Rightarrow> (err + reply) \<times> manager" where
  "run_op (Get keys) st = lift_reply Values (get_op keys st)"
| "run_op (SetItems items) st = lift_reply (\<lambda>u. Done) (set_op items st)"
| "run_op (Update k f) st = lift_reply NewValue (update_op k f st)"
| "run_op (MoveToSet a b x) st = lift_reply (\<lambda>u. Done) (moveToSet a b x st)"

fun written_keys :: "op \<Rightarrow> key set" where
  "written_keys (Get keys) = {}"
| "written_keys (SetItems items) = dom items"
| "written_keys (Update k f) = {k}"
| "written_keys (MoveToSet a b x) = {a, b}"

fun run_sets :: "jsobj list \<Rightarrow> manager \<Rightarrow> (err + unit) list \<times> manager" where
  "run_sets [] st = ([], st)"
| "run_sets (items # rest) st =
     (case set_op items st of (r, st1) \<Rightarrow>
        (case run_sets rest st1 of (rs, st2) \<Rightarrow> (r # rs, st2)))"

subsection \<open>Observations\<close>

text \<open>
  The Cache Mirror's value for a key, the adapter calls an operation added to the log,
  and the outcome of the persisting write of an operation (the last call it made, when
  that is a write).
\<close>

definition cached :: "manager \<Rightarrow> key \<Rightarrow> jsval option" where
  "cached st k = (case cache st of None \<Rightarrow> None | Some c \<Rightarrow> c k)"

definition new_calls :: "manager \<Rightarrow> manager \<Rightarrow> call list" where
  "new_calls st st' = drop (length (calls st)) (calls st')"

fun is_read :: "call \<Rightarrow> bool" where
  "is_read (Read q ok) = True"
| "is_read (Write m ok) = False"

definition last_write :: "call list \<Rightarrow> (jsobj \<times> bool) option" where
  "last_write cs =
     (case rev cs of
        [] \<Rightarrow> None
      | Read q ok # rest \<Rightarrow> None
      | Write m ok # rest \<Rightarrow> Some (m, ok))"

definition persist_outcome :: "manager \<Rightarrow> manager \<Rightarrow> bool option" where
  "persist_outcome st st' = map_option snd (last_write (new_calls st st'))"

text \<open>
  The elements a \<^verbatim>\<open>moveToSet\<close> sees for a key at its first step: those of the value
  it picks from the answer of the store and the cache.
\<close>

definition seen :: "manager \<Rightarrow> key \<Rightarrow> key \<Rightarrow> key \<Rightarrow> string list" where
  "seen st fromKey toKey k =
     (case pick (answer (Keys [fromKey, toKey]) (store st)) (cache st) k of
        Inl e \<Rightarrow> []
      | Inr v \<Rightarrow> (case new_Set v of Inl e \<Rightarrow> [] | Inr s \<Rightarrow> s))"

text \<open>
  Where the amended claim C3 takes the elements of a moved set from: the value the
  store holds for the key when that is truthy, else the value the cache holds for it
  when that is truthy, else the empty array.  The elements of a value are those of an
  array or the characters of a string.
\<close>

fun elements :: "jsval \<Rightarrow> string set" where
  "elements (VArr xs) = set xs"
| "elements (VStr cs) = (\<lambda>c. [c]) ` set cs"
| "elements v = {}"

definition cache_or_empty :: "manager \<Rightarrow> key \<Rightarrow> jsval" where
  "cache_or_empty st k =
     (case cached st k of Some w \<Rightarrow> if truthy w then w else VArr [] | None \<Rightarrow> VArr [])"

definition step1_or_cache :: "manager \<Rightarrow> key \<Rightarrow> jsval" where
  "step1_or_cache st k =
     (case store st k of
        Some v \<Rightarrow> if truthy v then v else cache_or_empty st k
      | None \<Rightarrow> cache_or_empty st k)"

text \<open>
  The write that section 4.2 of the specification describes for \<^verbatim>\<open>moveToSet\<close>: the two
  updated sets merged over the snapshot read at the first step.
\<close>

definition spec_move_write :: "jsobj \<Rightarrow> key \<Rightarrow> key \<Rightarrow> string \<Rightarrow> jsobj" where
  "spec_move_write snapshot fromKey toKey item =
     snapshot ++
       [fromKey \<mapsto> VArr (set_delete (case snapshot fromKey of Some (VArr xs) \<Rightarrow> xs | _ \<Rightarrow> []) item),
        toKey \<mapsto> VArr (set_add (case snapshot toKey of Some (VArr xs) \<Rightarrow> xs | _ \<Rightarrow> []) item)]"

text \<open>
  The value the specification gives a key after a sequence of \<^verbatim>\<open>set\<close> calls: that of
  the last call that completed and included the key, else the value it had before.
\<close>

fun last_set_value :: "key \<Rightarrow> (jsobj \<times> (err + unit)) list \<Rightarrow> jsval option \<Rightarrow> jsval option" where
  "last_set_value k [] v = v"
| "last_set_value k ((items, Inl e) # rest) v = last_set_value k rest v"
| "last_set_value k ((items, Inr u) # rest) v =
     last_set_value k rest (case items k of Some w \<Rightarrow> Some w | None \<Rightarrow> v)"

section \<open>The write-buffering flusher (background service worker)\<close>

text \<open>
  The globals of the service worker: the pending write buffer (an object whose key
  order \<^verbatim>\<open>Object.keys\<close> reports, so an association list), the handle of the debounce
  timer, the flush guard, the metrics, and the storage manager of the worker.  The
  environment holds the timeouts that are still to fire (\<open>timers\<close>: handle and delay)
  and the \<^verbatim>\<open>set\<close> requests that arrive while a flush is suspended (\<open>incoming\<close>: one
  batch for each coming suspension point).  \<open>trace\<close> records the chunk writes
  attempted and the backoff delays requested.  The timestamp \<^verbatim>\<open>lastFlushAt\<close> is a
  wall-clock reading and is left out.

  Timer handles are positive, so a stored handle is truthy.
  The global \<^verbatim>\<open>storageManager\<close> exists (the handler refuses every request when it
  does not).  Of the requests that can be handled while a flush is suspended only
  \<^verbatim>\<open>set\<close> changes the buffer, so only those are modelled there; a timer that fires or
  a \<^verbatim>\<open>flush\<close> requested during a flush returns at the guard.
\<close>

type_synonym obj = "(key \<times> jsval) list"

record metrics =
  flushedCount :: nat
  failedFlushCount :: nat
  lastFlushError :: "err option"

datatype event = ChunkWrite obj nat bool | Backoff nat

record worker =
  pendingWrites :: obj
  pendingFlushTimer :: "nat option"
  timers :: "(nat \<times> nat) list"
  nextTimer :: nat
  flushInProgress :: bool
  flushAttempt :: nat
  flushMetrics :: metrics
  pendingFlushDelay :: nat
  storageManager :: manager
  incoming :: "obj list list"
  trace :: "event list"

definition new_worker :: "manager \<Rightarrow> obj list list \<Rightarrow> worker" where
  "new_worker m arrivals =
     \<lparr>pendingWrites = [], pendingFlushTimer = None, timers = [], nextTimer = 1,
      flushInProgress = False, flushAttempt = 0,
      flushMetrics = \<lparr>flushedCount = 0, failedFlushCount = 0, lastFlushError = None\<rparr>,
      pendingFlushDelay = 100, storageManager = m, incoming = arrivals, trace = []\<rparr>"

text \<open>\<^verbatim>\<open>{ ...a, ...b }\<close> on objects with ordered keys.\<close>

definition assign :: "obj \<Rightarrow> obj \<Rightarrow> obj" where
  "assign a b = fold (\<lambda>(k, v). obj_put k v) b a"

definition clearTimeout :: "nat \<Rightarrow> worker \<Rightarrow> worker" where
  "clearTimeout h w = w\<lparr>timers := filter (\<lambda>(i, d). i \<noteq> h) (timers w)\<rparr>"

definition scheduleFlush :: "nat option \<Rightarrow> worker \<Rightarrow> worker" where
  "scheduleFlush delay w =
     (let d = (case delay of Some n \<Rightarrow> n | None \<Rightarrow> pendingFlushDelay w);
          w1 = (case pendingFlushTimer w of Some h \<Rightarrow> clearTimeout h w | None \<Rightarrow> w)
      in w1\<lparr>timers := timers w1 @ [(nextTimer w1, d)],
             pendingFlushTimer := Some (nextTimer w1),
             nextTimer := nextTimer w1 + 1\<rparr>)"

text \<open>
  The \<^verbatim>\<open>set\<close> branch of the \<^verbatim>\<open>storageOp\<close> handler merges its argument into the buffer
  and schedules a flush.  At a suspension point of a flush the requests of the next
  incoming batch are handled, in order.
\<close>

definition mergePending :: "obj \<Rightarrow> worker \<Rightarrow> worker" where
  "mergePending args w = scheduleFlush (Some 100) (w\<lparr>pendingWrites := assign (pendingWrites w) args\<rparr>)"

definition suspend :: "worker \<Rightarrow> worker" where
  "suspend w =
     (case incoming w of
        [] \<Rightarrow> w
      | batch # rest \<Rightarrow> fold mergePending batch (w\<lparr>incoming := rest\<rparr>))"

definition chunkSize :: nat where
  "chunkSize = 20"

function writeChunkWithRetry :: "obj \<Rightarrow> nat \<Rightarrow> worker \<Rightarrow> (err + bool) \<times> worker" where
  "writeChunkWithRetry chunkObj chunkAttempt w =
     (case set_op (map_of chunkObj) (storageManager w) of
        (Inr u, m1) \<Rightarrow>
          (let w1 = suspend (w\<lparr>storageManager := m1\<rparr>)
           in (Inr True,
               w1\<lparr>flushMetrics := (flushMetrics w1)\<lparr>flushedCount := flushedCount (flushMetrics w1) + 1,
                                                     lastFlushError := None\<rparr>,
                  trace := trace w1 @ [ChunkWrite chunkObj chunkAttempt True]\<rparr>))
      | (Inl e, m1) \<Rightarrow>
          (let w1 = suspend (w\<lparr>storageManager := m1\<rparr>);
               w2 = w1\<lparr>flushMetrics := (flushMetrics w1)\<lparr>lastFlushError := Some e\<rparr>,
                       trace := trace w1 @ [ChunkWrite chunkObj chunkAttempt False]\<rparr>
           in if chunkAttempt < 3
              then writeChunkWithRetry chunkObj (chunkAttempt + 1)
                     (suspend (w2\<lparr>trace := trace w2 @ [Backoff (100 * 2 ^ (chunkAttempt - 1))]\<rparr>))
              else (Inl e,
                    w2\<lparr>flushMetrics := (flushMetrics w2)\<lparr>failedFlushCount :=
                                            failedFlushCount (flushMetrics w2) + 1\<rparr>\<rparr>)))"
  by pat_completeness auto
termination
  by (relation "measure (\<lambda>(c, n, w). 3 - n)") auto

text \<open>\<^verbatim>\<open>for (const k of chunkKeys) chunkObj[k] = toWrite[k]\<close>; every \<open>k\<close> is a key of \<open>toWrite\<close>.\<close>

definition chunkOf :: "obj \<Rightarrow> key list \<Rightarrow> obj" where
  "chunkOf toWrite chunkKeys =
     fold (\<lambda>k c. case map_of toWrite k of Some v \<Rightarrow> obj_put k v c | None \<Rightarrow> c) chunkKeys []"

function flushLoop :: "obj \<Rightarrow> key list \<Rightarrow> nat \<Rightarrow> worker \<Rightarrow> (err + bool) \<times> worker" where
  "flushLoop toWrite keys i w =
     (if i < length keys
      then (case writeChunkWithRetry (chunkOf toWrite (take chunkSize (drop i keys))) 1 w of
              (Inl e, w1) \<Rightarrow> (Inl e, w1)
            | (Inr b, w1) \<Rightarrow> flushLoop toWrite keys (i + chunkSize) w1)
      else (Inr True, w))"
  by pat_completeness auto
termination
  by (relation "measure (\<lambda>(t, keys, i, w). length keys - i)") (auto simp: chunkSize_def)

definition flushPendingWrites :: "worker \<Rightarrow> (err + bool option) \<times> worker" where
  "flushPendingWrites w =
     (if pendingWrites w = [] then (Inr None, w)
      else if flushInProgress w then (Inr None, w)
      else
        (let toWrite = pendingWrites w;
             w1 = w\<lparr>flushInProgress := True, pendingWrites := []\<rparr>
         in if map fst toWrite = [] then (Inr None, w1\<lparr>flushInProgress := False\<rparr>)
            else
              (case flushLoop toWrite (map fst toWrite) 0 w1 of
                 (Inr b, w2) \<Rightarrow> (Inr (Some True), w2\<lparr>flushAttempt := 0, flushInProgress := False\<rparr>)
               | (Inl e, w2) \<Rightarrow>
                   (Inl e, w2\<lparr>pendingWrites := assign toWrite (pendingWrites w2),
                              flushAttempt := 0, flushInProgress := False\<rparr>))))"

text \<open>The debounce timeout with handle \<open>h\<close> fires: the flush runs and its error is logged only.\<close>

definition fire :: "nat \<Rightarrow> worker \<Rightarrow> worker" where
  "fire h w =
     (if h \<in> set (map fst (timers w)) then snd (flushPendingWrites (clearTimeout h w)) else w)"

subsection \<open>The storageOp handler\<close>

text \<open>
  Every \<^verbatim>\<open>storageOp\<close> request first initializes the storage manager when it is not
  (with the empty schema unless the request is a \<^verbatim>\<open>get\<close>), ignoring a failure.
\<close>

definition ensureInitialized :: "query \<Rightarrow> worker \<Rightarrow> worker" where
  "ensureInitialized schema w =
     (if \<not> initialized (storageManager w)
      then w\<lparr>storageManager := snd (initialize schema (storageManager w))\<rparr>
      else w)"

definition storageOp_set :: "obj \<Rightarrow> worker \<Rightarrow> (err + key list) \<times> worker" where
  "storageOp_set args w = (Inr (map fst args), mergePending args (ensureInitialized (Defaults Map.empty) w))"

definition storageOp_status :: "worker \<Rightarrow> (key list \<times> nat \<times> metrics)" where
  "storageOp_status w = (map fst (pendingWrites w), length (map fst (pendingWrites w)), flushMetrics w)"

definition storageOp_flush :: "worker \<Rightarrow> (err + bool) \<times> worker" where
  "storageOp_flush w =
     (case flushPendingWrites (ensureInitialized (Defaults Map.empty) w) of
        (Inl e, w1) \<Rightarrow> (Inl e, w1)
      | (Inr b, w1) \<Rightarrow> (Inr True, w1))"

definition storageOp_flushNow :: "worker \<Rightarrow> (err + bool) \<times> worker" where
  "storageOp_flushNow w =
     (let w0 = ensureInitialized (Defaults Map.empty) w;
          w1 = (case pendingFlushTimer w0 of
                  Some h \<Rightarrow> (clearTimeout h w0)\<lparr>pendingFlushTimer := None\<rparr>
                | None \<Rightarrow> w0)
      in case flushPendingWrites w1 of
           (Inl e, w2) \<Rightarrow> (Inl e, w2)
         | (Inr b, w2) \<Rightarrow> (Inr True, w2))"

section \<open>Observations of a flush\<close>

declare writeChunkWithRetry.simps [simp del]

declare flushLoop.simps [simp del]

text \<open>
  The events a run added to the trace, and the writes that arrived while it was
  suspended: the requests of the incoming batches it consumed, merged in order into an
  empty buffer.
\<close>

definition new_events :: "worker \<Rightarrow> worker \<Rightarrow> event list" where
  "new_events w w' = drop (length (trace w)) (trace w')"

definition merge_all :: "obj list \<Rightarrow> obj \<Rightarrow> obj" where
  "merge_all reqs p = fold (\<lambda>args q. assign q args) reqs p"

definition arrived :: "worker \<Rightarrow> worker \<Rightarrow> obj" where
  "arrived w w' =
     merge_all (concat (take (length (incoming w) - length (incoming w')) (incoming w))) []"



text \<open>
  The trace of one chunk: up to three attempts, a backoff of 100 ms after the first
  failure and of 200 ms after the second; the chunk has failed for good when the third
  attempt fails.  The trace of a flush: the chunks in order, up to the first that fails
  for good.
\<close>

definition chunk_run :: "obj \<Rightarrow> event list \<Rightarrow> bool \<Rightarrow> bool" where
  "chunk_run c ts ok =
     (ok \<and> ts = [ChunkWrite c 1 True]
      \<or> ok \<and> ts = [ChunkWrite c 1 False, Backoff 100, ChunkWrite c 2 True]
      \<or> ok \<and> ts = [ChunkWrite c 1 False, Backoff 100, ChunkWrite c 2 False, Backoff 200,
                      ChunkWrite c 3 True]
      \<or> \<not> ok \<and> ts = [ChunkWrite c 1 False, Backoff 100, ChunkWrite c 2 False, Backoff 200,
                        ChunkWrite c 3 False])"


fun resolved :: "err + 'a \<Rightarrow> bool" where
  "resolved (Inr v) = True"
| "resolved (Inl e) = False"

text \<open>
  The buffer and the incoming batches of \<open>w'\<close> are those of \<open>w\<close> after some number of
  batches have been merged in.
\<close>

definition absorbed :: "worker \<Rightarrow> worker \<Rightarrow> bool" where
  "absorbed w w' \<longleftrightarrow>
     (\<exists>n. incoming w' = drop n (incoming w) \<and>
          pendingWrites w' = merge_all (concat (take n (incoming w))) (pendingWrites w))"

section \<open>What the flush persists\<close>







section \<open>Example states\<close>

text \<open>
  A storage manager that has been initialized with the two word lists, one word still
  unknown, cache and store in agreement; the argument gives the outcomes of the coming
  adapter calls.
\<close>

definition words_manager :: "bool list \<Rightarrow> manager" where
  "words_manager outcomes =
     \<lparr>cache = Some [''unknownWords'' \<mapsto> VArr [''hello''], ''knownWords'' \<mapsto> VArr []],
      initialized = True, queue = None,
      store = [''unknownWords'' \<mapsto> VArr [''hello''], ''knownWords'' \<mapsto> VArr []],
      script = outcomes, calls = []\<rparr>"

text \<open>
  A storage manager initialized with defaults for the two word lists and a theme over a
  store that holds one unknown word, and one initialized with the two empty word lists
  over an empty store.
\<close>

definition defaults_manager :: manager where
  "defaults_manager =
     snd (initialize
            (Defaults [''knownWords'' \<mapsto> VArr [], ''unknownWords'' \<mapsto> VArr [],
                       ''theme'' \<mapsto> VStr ''dark''])
            (new_StorageManager [''unknownWords'' \<mapsto> VArr [''hello'']] []))"

definition empty_lists_manager :: manager where
  "empty_lists_manager =
     snd (initialize (Defaults [''knownWords'' \<mapsto> VArr [], ''unknownWords'' \<mapsto> VArr []])
            (new_StorageManager Map.empty []))"

text \<open>
  A worker with two pending writes over the example manager, and the worker as it is
  when the service worker starts, over an empty store.
\<close>

definition demo_worker :: "bool list \<Rightarrow> obj list list \<Rightarrow> worker" where
  "demo_worker outcomes arrivals =
     (new_worker (words_manager outcomes) arrivals)
       \<lparr>pendingWrites := [(''a'', VNum 1), (''b'', VNum 2)]\<rparr>"

definition fresh_worker :: worker where
  "fresh_worker = new_worker (new_StorageManager Map.empty []) []"

section \<open>Objects with ordered keys\<close>

lemma keys_insert_key: "fst ` set (insert_key k v al) = insert k (fst ` set al)"
proof (induction al)
  case Nil
  show ?case by simp
next
  case (Cons x al)
  then show ?case by (cases x; cases "precedes k (fst x)") auto
qed

lemma map_of_insert_key:
  "k \<notin> fst ` set al \<Longrightarrow> map_of (insert_key k v al) = (map_of al)(k \<mapsto> v)"
  by (induction al) (auto simp: fun_eq_iff)

lemma distinct_insert_key:
  "k \<notin> fst ` set al \<Longrightarrow> distinct (map fst al) \<Longrightarrow> distinct (map fst (insert_key k v al))"
proof (induction al)
  case Nil
  show ?case by simp
next
  case (Cons x al)
  have "fst ` set (insert_key k v al) = insert k (fst ` set al)"
    by (rule keys_insert_key)
  with Cons show ?case by (cases x) auto
qed


lemma keys_update: "fst ` set (AList.update k v al) = insert k (fst ` set al)"
  using dom_update[of k v al] by (simp add: dom_map_of_conv_image_fst)

lemma keys_obj_put: "fst ` set (obj_put k v al) = insert k (fst ` set al)"
  by (simp add: obj_put_def keys_update keys_insert_key)

lemma map_of_obj_put: "map_of (obj_put k v al) = (map_of al)(k \<mapsto> v)"
  by (simp add: obj_put_def update_conv' map_of_insert_key)

lemma distinct_obj_put: "distinct (map fst al) \<Longrightarrow> distinct (map fst (obj_put k v al))"
  by (simp add: obj_put_def distinct_update distinct_insert_key)


lemma precedes_before:
  "precedes k k' \<Longrightarrow> \<not> precedes x k' \<Longrightarrow> \<not> precedes x k"
  by (auto simp: precedes_def split: if_splits)

lemma js_ordered_insert_key: "js_ordered al \<Longrightarrow> js_ordered (insert_key k v al)"
proof (induction al)
  case Nil
  show ?case by (simp add: js_ordered_def)
next
  case (Cons x al)
  obtain k' v' where x: "x = (k', v')" by (cases x)
  from Cons.prems have tail: "js_ordered al"
    and head: "\<And>y. y \<in> set al \<Longrightarrow> \<not> precedes (fst y) k'"
    by (auto simp: js_ordered_def x)
  show ?case
  proof (cases "precedes k k'")
    case True
    have "\<not> precedes (fst y) k" if "y \<in> set al" for y
      using precedes_before[OF True head[OF that]] .
    moreover have "\<not> precedes k' k"
      using True by (auto simp: precedes_def split: if_splits)
    ultimately show ?thesis
      using True Cons.prems by (auto simp: js_ordered_def x)
  next
    case False
    have "\<not> precedes (fst y) k'" if "y \<in> set (insert_key k v al)" for y
    proof -
      from that have "fst y \<in> insert k (fst ` set al)"
        using keys_insert_key[of k v al] by auto
      then show ?thesis using False head by auto
    qed
    with False Cons.IH[OF tail] show ?thesis
      by (auto simp: js_ordered_def x)
  qed
qed

lemma js_ordered_update: "js_ordered al \<Longrightarrow> k \<in> fst ` set al \<Longrightarrow> js_ordered (AList.update k v al)"
proof -
  assume a: "js_ordered al" "k \<in> fst ` set al"
  have "map fst (AList.update k v al) = map fst al"
    using a(2) by (simp add: update_keys)
  moreover have "js_ordered xs \<longleftrightarrow> sorted_wrt (\<lambda>a b. \<not> precedes b a) (map fst xs)" for xs :: "(key \<times> 'a) list"
    by (simp add: js_ordered_def sorted_wrt_map)
  ultimately show ?thesis using a(1) by simp
qed

lemma js_ordered_obj_put: "js_ordered al \<Longrightarrow> js_ordered (obj_put k v al)"
  by (simp add: obj_put_def js_ordered_update js_ordered_insert_key)

section \<open>Sets as duplicate-free lists\<close>

lemma set_fold_set_add: "set (fold (\<lambda>x s. set_add s x) xs acc) = set xs \<union> set acc"
  by (induction xs arbitrary: acc) (auto simp: set_add_def)

lemma distinct_fold_set_add: "distinct acc \<Longrightarrow> distinct (fold (\<lambda>x s. set_add s x) xs acc)"
  by (induction xs arbitrary: acc) (auto simp: set_add_def)

lemma distinct_fold_set_add_chars:
  "distinct acc \<Longrightarrow> distinct (fold (\<lambda>c s. set_add s [c]) cs acc)"
  by (induction cs arbitrary: acc) (auto simp: set_add_def)

lemma new_Set_distinct: "new_Set v = Inr s \<Longrightarrow> distinct s"
  by (cases v) (auto simp: distinct_fold_set_add distinct_fold_set_add_chars)

lemma new_Set_VArr: "new_Set (VArr xs) = Inr s \<Longrightarrow> set s = set xs"
  by (auto simp: set_fold_set_add)

lemma set_set_add: "set (set_add s x) = insert x (set s)"
  by (auto simp: set_add_def)

lemma set_set_delete: "distinct s \<Longrightarrow> set (set_delete s x) = set s - {x}"
  by (simp add: set_delete_def)

lemma distinct_seen: "distinct (seen st fromKey toKey k)"
  by (auto simp: seen_def dest: new_Set_distinct split: sum.splits)

lemma set_fold_set_add_chars:
  "set (fold (\<lambda>c s. set_add s [c]) cs acc) = (\<lambda>c. [c]) ` set cs \<union> set acc"
  by (induction cs arbitrary: acc) (auto simp: set_add_def)

lemma new_Set_elements: "new_Set v = Inr s \<Longrightarrow> set s = elements v"
  by (cases v) (auto simp: set_fold_set_add set_fold_set_add_chars)

text \<open>
  When the value picked for a key can be read as a set, it is the value of the store
  for the key when that is truthy, else that of the cache when that is truthy, else the
  empty array: a key that names a member of \<^verbatim>\<open>Object.prototype\<close> and has no value picks
  the inherited function, which is not iterable.
\<close>

lemma picked_elements:
  assumes "pick (answer (Keys [fromKey, toKey]) (store st)) (cache st) k = Inr v"
    and "new_Set v = Inr s" and "k \<in> {fromKey, toKey}"
  shows "set s = elements (step1_or_cache st k)"
proof -
  have "v = step1_or_cache st k \<or> (\<exists>n. v = VInherited n)"
    using assms(1,3)
    by (auto simp: pick_def js_read_def step1_or_cache_def cache_or_empty_def cached_def
        split: option.splits if_splits)
  with assms(2) show ?thesis
    by (auto simp: new_Set_elements)
qed

section \<open>The adapter calls of the storage manager\<close>

lemma outcome_frame [simp]:
  "cache (snd (outcome st)) = cache st"
  "initialized (snd (outcome st)) = initialized st"
  "queue (snd (outcome st)) = queue st"
  "store (snd (outcome st)) = store st"
  "calls (snd (outcome st)) = calls st"
  by (cases "script st"; simp add: outcome_def)+

lemma storage_get_eq:
  "storage_get q st =
     (if fst (outcome st) then Inr (answer q (store st)) else Inl AdapterFailure,
      (snd (outcome st))\<lparr>calls := calls st @ [Read q (fst (outcome st))]\<rparr>)"
  by (simp add: storage_get_def split_beta)

lemma storage_set_eq:
  "storage_set m st =
     (if fst (outcome st) then Inr () else Inl AdapterFailure,
      (snd (outcome st))\<lparr>store := (if fst (outcome st) then store st ++ m else store st),
                           calls := calls st @ [Write m (fst (outcome st))]\<rparr>)"
  by (simp add: storage_set_def split_beta)

lemma last_write_snoc [simp]:
  "last_write (cs @ [Write m ok]) = Some (m, ok)"
  "last_write (cs @ [Read q ok]) = None"
  "last_write [] = None"
  by (simp_all add: last_write_def)

lemma new_calls_append [simp]: "calls st' = calls st @ cs \<Longrightarrow> new_calls st st' = cs"
  by (simp add: new_calls_def)

lemma setInternal_skip_eq:
  "setInternal items True st =
     (if \<not> initialized st then (Inl Uninitialized, st)
      else (if fst (outcome st) then Inr () else Inl AdapterFailure,
            (snd (outcome st))\<lparr>
               cache := (if fst (outcome st)
                         then Some ((case cache st of None \<Rightarrow> Map.empty | Some c \<Rightarrow> c) ++ items)
                         else cache st),
               store := (if fst (outcome st)
                         then store st ++ ((case cache st of None \<Rightarrow> Map.empty | Some c \<Rightarrow> c) ++ items)
                         else store st),
               calls := calls st @ [Write ((case cache st of None \<Rightarrow> Map.empty | Some c \<Rightarrow> c) ++ items)
                                       (fst (outcome st))]\<rparr>))"
  by (simp add: setInternal_def storage_set_eq)

section \<open>What a moveToSet does\<close>

text \<open>
  The body of \<^verbatim>\<open>moveToSet\<close> ends in one of four ways: the read is rejected; the read
  succeeds and a step before the write throws; the write is rejected; the write
  succeeds.  Only the last changes the cache or the store.
\<close>

lemma moveToSet_body_cases:
  assumes "moveToSet_body fromKey toKey item st = (r, st')"
  obtains
    (read_failed) "r = Inl AdapterFailure"
      "calls st' = calls st @ [Read (Keys [fromKey, toKey]) False]"
      "cache st' = cache st" "store st' = store st" "initialized st' = initialized st"
  | (threw) e where "r = Inl e"
      "calls st' = calls st @ [Read (Keys [fromKey, toKey]) True]"
      "cache st' = cache st" "store st' = store st" "initialized st' = initialized st"
  | (write_failed) "r = Inl AdapterFailure"
      "calls st' = calls st @ [Read (Keys [fromKey, toKey]) True,
          Write ((case cache st of None \<Rightarrow> Map.empty | Some c \<Rightarrow> c) ++
                   [fromKey \<mapsto> VArr (set_delete (seen st fromKey toKey fromKey) item),
                    toKey \<mapsto> VArr (set_add (seen st fromKey toKey toKey) item)]) False]"
      "cache st' = cache st" "store st' = store st" "initialized st' = initialized st"
  | (written) "r = Inr ()" "initialized st"
      "calls st' = calls st @ [Read (Keys [fromKey, toKey]) True,
          Write ((case cache st of None \<Rightarrow> Map.empty | Some c \<Rightarrow> c) ++
                   [fromKey \<mapsto> VArr (set_delete (seen st fromKey toKey fromKey) item),
                    toKey \<mapsto> VArr (set_add (seen st fromKey toKey toKey) item)]) True]"
      "cache st' = Some ((case cache st of None \<Rightarrow> Map.empty | Some c \<Rightarrow> c) ++
                   [fromKey \<mapsto> VArr (set_delete (seen st fromKey toKey fromKey) item),
                    toKey \<mapsto> VArr (set_add (seen st fromKey toKey toKey) item)])"
      "store st' = store st ++ ((case cache st of None \<Rightarrow> Map.empty | Some c \<Rightarrow> c) ++
                   [fromKey \<mapsto> VArr (set_delete (seen st fromKey toKey fromKey) item),
                    toKey \<mapsto> VArr (set_add (seen st fromKey toKey toKey) item)])"
      "initialized st'"
proof (cases "fst (outcome st)")
  case False
  with assms show ?thesis
    by (intro read_failed) (auto simp: moveToSet_body_def storage_get_eq)
next
  case True
  let ?remote = "answer (Keys [fromKey, toKey]) (store st)"
  show ?thesis
  proof (cases "pick ?remote (cache st) fromKey")
    case (Inl e)
    with True assms show ?thesis
      by (intro threw[of e]) (auto simp: moveToSet_body_def storage_get_eq)
  next
    case fa: (Inr fromArray)
    show ?thesis
    proof (cases "pick ?remote (cache st) toKey")
      case (Inl e)
      with True fa assms show ?thesis
        by (intro threw[of e]) (auto simp: moveToSet_body_def storage_get_eq)
    next
      case ta: (Inr toArray)
      show ?thesis
      proof (cases "new_Set fromArray")
        case (Inl e)
        with True fa ta assms show ?thesis
          by (intro threw[of e]) (auto simp: moveToSet_body_def storage_get_eq)
      next
        case fs: (Inr fromSet)
        show ?thesis
        proof (cases "new_Set toArray")
          case (Inl e)
          with True fa ta fs assms show ?thesis
            by (intro threw[of e]) (auto simp: moveToSet_body_def storage_get_eq)
        next
          case ts: (Inr toSet)
          have seen_from: "seen st fromKey toKey fromKey = fromSet"
            using fa fs by (simp add: seen_def)
          have seen_to: "seen st fromKey toKey toKey = toSet"
            using ta ts by (simp add: seen_def)
          show ?thesis
          proof (cases "initialized st")
            case False
            with True fa ta fs ts assms show ?thesis
              by (intro threw[of Uninitialized])
                 (auto simp: moveToSet_body_def storage_get_eq setInternal_skip_eq)
          next
            case init: True
            let ?st1 = "(snd (outcome st))\<lparr>calls := calls st @ [Read (Keys [fromKey, toKey]) True]\<rparr>"
            show ?thesis
            proof (cases "fst (outcome ?st1)")
              case False
              with True fa ta fs ts init assms seen_from seen_to show ?thesis
                by (intro write_failed)
                   (auto simp: moveToSet_body_def storage_get_eq setInternal_skip_eq)
            next
              case w: True
              with True fa ta fs ts init assms seen_from seen_to show ?thesis
                by (intro written)
                   (auto simp: moveToSet_body_def storage_get_eq setInternal_skip_eq)
            qed
          qed
        qed
      qed
    qed
  qed
qed

lemma moveToSet_body_picked:
  assumes "moveToSet_body fromKey toKey item st = (r, st')"
    and "Write m ok \<in> set (new_calls st st')"
  shows "set (seen st fromKey toKey fromKey) = elements (step1_or_cache st fromKey)
       \<and> set (seen st fromKey toKey toKey) = elements (step1_or_cache st toKey)"
proof -
  let ?remote = "answer (Keys [fromKey, toKey]) (store st)"
  have no_write: "Write m ok \<notin> set (new_calls st st')"
    if "calls st' = calls st @ [Read (Keys [fromKey, toKey]) b]" for b
    using that by (simp add: new_calls_def)
  have read: "fst (outcome st)"
  proof (rule ccontr)
    assume "\<not> fst (outcome st)"
    with assms(1) have "calls st' = calls st @ [Read (Keys [fromKey, toKey]) False]"
      by (auto simp: moveToSet_body_def storage_get_eq)
    from no_write[OF this] assms(2) show False by simp
  qed
  obtain fv where fa: "pick ?remote (cache st) fromKey = Inr fv"
  proof (cases "pick ?remote (cache st) fromKey")
    case (Inl e)
    with read assms(1) have "calls st' = calls st @ [Read (Keys [fromKey, toKey]) True]"
      by (auto simp: moveToSet_body_def storage_get_eq)
    from no_write[OF this] assms(2) show ?thesis by simp
  qed
  obtain tv where ta: "pick ?remote (cache st) toKey = Inr tv"
  proof (cases "pick ?remote (cache st) toKey")
    case (Inl e)
    with read fa assms(1) have "calls st' = calls st @ [Read (Keys [fromKey, toKey]) True]"
      by (auto simp: moveToSet_body_def storage_get_eq)
    from no_write[OF this] assms(2) show ?thesis by simp
  qed
  obtain fs where fs: "new_Set fv = Inr fs"
  proof (cases "new_Set fv")
    case (Inl e)
    with read fa ta assms(1) have "calls st' = calls st @ [Read (Keys [fromKey, toKey]) True]"
      by (auto simp: moveToSet_body_def storage_get_eq)
    from no_write[OF this] assms(2) show ?thesis by simp
  qed
  obtain ts where ts: "new_Set tv = Inr ts"
  proof (cases "new_Set tv")
    case (Inl e)
    with read fa ta fs assms(1) have "calls st' = calls st @ [Read (Keys [fromKey, toKey]) True]"
      by (auto simp: moveToSet_body_def storage_get_eq)
    from no_write[OF this] assms(2) show ?thesis by simp
  qed
  have "seen st fromKey toKey fromKey = fs" "seen st fromKey toKey toKey = ts"
    using fa ta fs ts by (simp_all add: seen_def)
  with picked_elements[OF fa fs] picked_elements[OF ta ts] show ?thesis
    by simp
qed

lemma moveToSet_queued:
  "queue st = None \<Longrightarrow>
     moveToSet fromKey toKey item st =
       (fst (moveToSet_body fromKey toKey item st),
        (snd (moveToSet_body fromKey toKey item st))\<lparr>queue := None\<rparr>)"
  by (simp add: moveToSet_def enqueue_caught_def split_beta)

lemma moveToSet_skipped:
  "queue st = Some e \<Longrightarrow> moveToSet fromKey toKey item st = (Inl e, st\<lparr>queue := None\<rparr>)"
  by (simp add: moveToSet_def enqueue_caught_def)

section \<open>Claims about moveToSet\<close>

lemmas manager_eval =
  moveToSet_def enqueue_caught_def enqueue_def moveToSet_body_def storage_get_def storage_set_def
  outcome_def setInternal_def pick_def set_add_def set_delete_def cached_def persist_outcome_def
  new_calls_def last_write_def seen_def get_op_def get_body_def set_op_def initialize_def
  new_StorageManager_def update_op_def update_body_def js_read_def prototype_members_def
  obj_put_def precedes_def is_index_def num_val_def



lemma moveToSet_cases:
  assumes "moveToSet fromKey toKey item st = (r, st')" and "queue st = None"
  obtains rb sb where "moveToSet_body fromKey toKey item st = (rb, sb)" "r = rb"
    "st' = sb\<lparr>queue := None\<rparr>"
  using assms by (cases "moveToSet_body fromKey toKey item st") (simp add: moveToSet_queued)

text \<open>
  Claim C3, as amended.  A \<^verbatim>\<open>moveToSet\<close> that executes makes exactly one adapter read, the
  read of \<open>fromKey\<close> and \<open>toKey\<close> of its first step, and at most one write; the persist
  makes no read of its own.  The object it writes is the Cache Mirror overlaid with
  the two updated sets: every other key has its cached value, the set written for
  \<open>toKey\<close> holds the item and the elements of the first step, and the set written for
  \<open>fromKey\<close>, a different key, the elements of the first step without the item.  The
  elements of the first step for a key are those of the value the store answered for
  it when that is truthy, else those of the value the Cache Mirror holds for it when
  that is truthy, else none.
\<close>

theorem moveToSet_one_read_merge_over_cache:
  assumes "queue st = None" and "moveToSet fromKey toKey item st = (r, st')"
  shows "(\<exists>ok. filter is_read (new_calls st st') = [Read (Keys [fromKey, toKey]) ok])
       \<and> length (filter (\<lambda>c. \<not> is_read c) (new_calls st st')) \<le> 1
       \<and> (\<forall>m ok. Write m ok \<in> set (new_calls st st') \<longrightarrow>
            m = (case cache st of None \<Rightarrow> Map.empty | Some c \<Rightarrow> c) ++
                  [fromKey \<mapsto> VArr (set_delete (seen st fromKey toKey fromKey) item),
                   toKey \<mapsto> VArr (set_add (seen st fromKey toKey toKey) item)])
       \<and> (\<forall>k xs. k \<in> {fromKey, toKey} \<and> store st k = Some (VArr xs) \<longrightarrow>
            set (seen st fromKey toKey k) = set xs)
       \<and> (\<forall>m ok. Write m ok \<in> set (new_calls st st') \<longrightarrow>
            (\<forall>k. k \<noteq> fromKey \<and> k \<noteq> toKey \<longrightarrow> m k = cached st k)
            \<and> (\<exists>ys. m toKey = Some (VArr ys) \<and> distinct ys
                  \<and> set ys = insert item (elements (step1_or_cache st toKey)))
            \<and> (fromKey \<noteq> toKey \<longrightarrow>
                 (\<exists>xs. m fromKey = Some (VArr xs) \<and> distinct xs
                    \<and> set xs = elements (step1_or_cache st fromKey) - {item})))"
proof -
  from assms(2,1) obtain rb sb where body: "moveToSet_body fromKey toKey item st = (rb, sb)"
    and st': "st' = sb\<lparr>queue := None\<rparr>"
    by (rule moveToSet_cases)
  have calls: "new_calls st st' = new_calls st sb"
    by (simp add: st' new_calls_def)
  have seen_store: "set (seen st fromKey toKey k) = set xs"
    if "k \<in> {fromKey, toKey}" "store st k = Some (VArr xs)" for k xs
    using that by (auto simp: seen_def pick_def js_read_def set_fold_set_add)
  from body have reads: "(\<exists>ok. filter is_read (new_calls st st') = [Read (Keys [fromKey, toKey]) ok])
       \<and> length (filter (\<lambda>c. \<not> is_read c) (new_calls st st')) \<le> 1"
    and wr: "\<forall>m ok. Write m ok \<in> set (new_calls st st') \<longrightarrow>
            m = (case cache st of None \<Rightarrow> Map.empty | Some c \<Rightarrow> c) ++
                  [fromKey \<mapsto> VArr (set_delete (seen st fromKey toKey fromKey) item),
                   toKey \<mapsto> VArr (set_add (seen st fromKey toKey toKey) item)]"
    by (cases rule: moveToSet_body_cases; auto simp: st')+
  have sets: "(\<forall>k. k \<noteq> fromKey \<and> k \<noteq> toKey \<longrightarrow> m k = cached st k)
            \<and> (\<exists>ys. m toKey = Some (VArr ys) \<and> distinct ys
                  \<and> set ys = insert item (elements (step1_or_cache st toKey)))
            \<and> (fromKey \<noteq> toKey \<longrightarrow>
                 (\<exists>xs. m fromKey = Some (VArr xs) \<and> distinct xs
                    \<and> set xs = elements (step1_or_cache st fromKey) - {item}))"
    if w: "Write m ok \<in> set (new_calls st st')" for m ok
  proof -
    from wr w have m: "m = (case cache st of None \<Rightarrow> Map.empty | Some c \<Rightarrow> c) ++
                  [fromKey \<mapsto> VArr (set_delete (seen st fromKey toKey fromKey) item),
                   toKey \<mapsto> VArr (set_add (seen st fromKey toKey toKey) item)]"
      by blast
    from w have "Write m ok \<in> set (new_calls st sb)" by (simp add: calls)
    from moveToSet_body_picked[OF body this]
    have el: "set (seen st fromKey toKey fromKey) = elements (step1_or_cache st fromKey)"
      "set (seen st fromKey toKey toKey) = elements (step1_or_cache st toKey)"
      by simp_all
    have d: "distinct (set_add (seen st fromKey toKey toKey) item)"
      "distinct (set_delete (seen st fromKey toKey fromKey) item)"
      using distinct_seen[of st fromKey toKey toKey] distinct_seen[of st fromKey toKey fromKey]
      by (simp_all add: set_add_def set_delete_def)
    have other: "\<forall>k. k \<noteq> fromKey \<and> k \<noteq> toKey \<longrightarrow> m k = cached st k"
      unfolding m by (simp add: cached_def map_add_def split: option.splits)
    have to: "\<exists>ys. m toKey = Some (VArr ys) \<and> distinct ys
                  \<and> set ys = insert item (elements (step1_or_cache st toKey))"
      unfolding m using d(1) el(2) by (simp add: set_set_add)
    have frm: "\<exists>xs. m fromKey = Some (VArr xs) \<and> distinct xs
                    \<and> set xs = elements (step1_or_cache st fromKey) - {item}"
      if "fromKey \<noteq> toKey"
      unfolding m using that d(2) el(1) distinct_seen[of st fromKey toKey fromKey]
      by (simp add: set_set_delete)
    from other to frm show ?thesis by blast
  qed
  from reads wr seen_store sets show ?thesis by blast
qed

theorem moveToSet_one_read_merge_over_cache_witness:
  "queue (words_manager []) = None
   \<and> filter is_read (new_calls (words_manager [])
        (snd (moveToSet ''unknownWords'' ''knownWords'' ''hello'' (words_manager []))))
       = [Read (Keys [''unknownWords'', ''knownWords'']) True]
   \<and> set (seen (words_manager []) ''unknownWords'' ''knownWords'' ''unknownWords'') = {''hello''}
   \<and> elements (step1_or_cache (words_manager []) ''unknownWords'') = {''hello''}
   \<and> elements (step1_or_cache (words_manager []) ''knownWords'') = {}
   \<and> map_option (\<lambda>(m, ok). (m ''unknownWords'', m ''knownWords'', ok))
        (last_write (new_calls (words_manager [])
           (snd (moveToSet ''unknownWords'' ''knownWords'' ''hello'' (words_manager [])))))
       = Some (Some (VArr []), Some (VArr [''hello'']), True)"
  using moveToSet_one_read_merge_over_cache[of "words_manager []" "''unknownWords''" "''knownWords''"
      "''hello''" "fst (moveToSet ''unknownWords'' ''knownWords'' ''hello'' (words_manager []))"
      "snd (moveToSet ''unknownWords'' ''knownWords'' ''hello'' (words_manager []))"]
  by (simp add: manager_eval words_manager_def step1_or_cache_def cache_or_empty_def)

text \<open>
  Claim C3 as stated fails: the base of the merge is the cache, not the snapshot of the
  first step.  After \<^verbatim>\<open>initialize\<close> with defaults, the store holds only
  \<^verbatim>\<open>unknownWords\<close>; the move then writes \<^verbatim>\<open>theme: 'dark'\<close>, which the snapshot does not
  hold and the merge over the snapshot would not write.
\<close>

theorem moveToSet_write_not_from_snapshot:
  "fst (moveToSet ''unknownWords'' ''knownWords'' ''hello'' defaults_manager) = Inr ()
   \<and> map_option (\<lambda>(m, ok). (m ''theme'', ok))
        (last_write (new_calls defaults_manager
           (snd (moveToSet ''unknownWords'' ''knownWords'' ''hello'' defaults_manager))))
       = Some (Some (VStr ''dark''), True)
   \<and> answer (Keys [''unknownWords'', ''knownWords'']) (store defaults_manager) ''theme'' = None
   \<and> spec_move_write (answer (Keys [''unknownWords'', ''knownWords'']) (store defaults_manager))
        ''unknownWords'' ''knownWords'' ''hello'' ''theme'' = None"
  by (simp add: manager_eval defaults_manager_def spec_move_write_def)


lemma moveToSet_resolved:
  assumes "moveToSet fromKey toKey item st = (Inr u, st')"
  shows "cache st' = Some ((case cache st of None \<Rightarrow> Map.empty | Some c \<Rightarrow> c) ++
                   [fromKey \<mapsto> VArr (set_delete (seen st fromKey toKey fromKey) item),
                    toKey \<mapsto> VArr (set_add (seen st fromKey toKey toKey) item)])"
    and "store st' = store st ++ ((case cache st of None \<Rightarrow> Map.empty | Some c \<Rightarrow> c) ++
                   [fromKey \<mapsto> VArr (set_delete (seen st fromKey toKey fromKey) item),
                    toKey \<mapsto> VArr (set_add (seen st fromKey toKey toKey) item)])"
    and "queue st = None"
proof -
  show q: "queue st = None"
    using assms by (cases "queue st") (simp_all add: moveToSet_skipped)
  from assms q obtain rb sb where body: "moveToSet_body fromKey toKey item st = (rb, sb)"
    and r: "Inr u = rb" and st': "st' = sb\<lparr>queue := None\<rparr>"
    by (rule moveToSet_cases)
  from body r st' show "cache st' = Some ((case cache st of None \<Rightarrow> Map.empty | Some c \<Rightarrow> c) ++
                   [fromKey \<mapsto> VArr (set_delete (seen st fromKey toKey fromKey) item),
                    toKey \<mapsto> VArr (set_add (seen st fromKey toKey toKey) item)])"
    by (cases rule: moveToSet_body_cases) auto
  from body r st' show "store st' = store st ++ ((case cache st of None \<Rightarrow> Map.empty | Some c \<Rightarrow> c) ++
                   [fromKey \<mapsto> VArr (set_delete (seen st fromKey toKey fromKey) item),
                    toKey \<mapsto> VArr (set_add (seen st fromKey toKey toKey) item)])"
    by (cases rule: moveToSet_body_cases) auto
qed

lemma moveToSet_resolved_members:
  assumes "moveToSet fromKey toKey item st = (Inr u, st')"
  shows "members (cached st' toKey) = insert item (set (seen st fromKey toKey toKey))"
    and "fromKey \<noteq> toKey \<Longrightarrow> members (cached st' fromKey) = set (seen st fromKey toKey fromKey) - {item}"
    and "members (store st' toKey) = insert item (set (seen st fromKey toKey toKey))"
    and "fromKey \<noteq> toKey \<Longrightarrow> members (store st' fromKey) = set (seen st fromKey toKey fromKey) - {item}"
  using moveToSet_resolved(1,2)[OF assms] distinct_seen[of st fromKey toKey fromKey]
  by (simp_all add: cached_def set_set_add set_set_delete)

lemma moveToSet_resolved_sets:
  assumes "moveToSet fromKey toKey item st = (Inr u, st')"
  shows "set (seen st fromKey toKey fromKey) = elements (step1_or_cache st fromKey)"
    and "set (seen st fromKey toKey toKey) = elements (step1_or_cache st toKey)"
proof -
  have q: "queue st = None"
    using assms by (cases "queue st") (simp_all add: moveToSet_skipped)
  from assms q obtain rb sb where body: "moveToSet_body fromKey toKey item st = (rb, sb)"
    and r: "Inr u = rb" and st': "st' = sb\<lparr>queue := None\<rparr>"
    by (rule moveToSet_cases)
  from body r have "\<exists>m. Write m True \<in> set (new_calls st sb)"
    by (cases rule: moveToSet_body_cases) (auto simp: new_calls_def)
  then obtain m where "Write m True \<in> set (new_calls st sb)" ..
  from moveToSet_body_picked[OF body this]
  show "set (seen st fromKey toKey fromKey) = elements (step1_or_cache st fromKey)"
    and "set (seen st fromKey toKey toKey) = elements (step1_or_cache st toKey)"
    by simp_all
qed

lemma moveToSet_result_any_item:
  "fst (moveToSet fromKey toKey item st) = fst (moveToSet fromKey toKey other st)"
  by (simp add: moveToSet_def enqueue_caught_def moveToSet_body_def storage_get_eq
      setInternal_skip_eq split: option.splits sum.splits)

text \<open>
  Claim C10.  When the item is not among the elements of the first step for \<open>fromKey\<close>
  (those of the value the store answered for it when that is truthy, else of the cached
  value), the call ends as it would for any other item: absence is no error.  When it
  resolves, the item is in the set of \<open>toKey\<close>, which holds the item and the elements of
  the first step, and the set of \<open>fromKey\<close>, a different key, has the elements of the
  first step, those the store held when it held an array; all this in the store and in
  the cache.
\<close>

theorem moveToSet_absent_item:
  assumes "item \<notin> elements (step1_or_cache st fromKey)"
  shows "fst (moveToSet fromKey toKey item st) = fst (moveToSet fromKey toKey other st)
       \<and> (\<forall>st'. moveToSet fromKey toKey item st = (Inr (), st') \<longrightarrow>
            item \<in> members (cached st' toKey) \<and> item \<in> members (store st' toKey)
            \<and> members (store st' toKey) = insert item (elements (step1_or_cache st toKey))
            \<and> members (cached st' toKey) = insert item (elements (step1_or_cache st toKey))
            \<and> set (seen st fromKey toKey fromKey) = elements (step1_or_cache st fromKey)
            \<and> (fromKey \<noteq> toKey \<longrightarrow>
                 members (store st' fromKey) = elements (step1_or_cache st fromKey)
                 \<and> members (cached st' fromKey) = elements (step1_or_cache st fromKey)
                 \<and> (\<forall>xs. store st fromKey = Some (VArr xs) \<longrightarrow>
                       members (store st' fromKey) = members (store st fromKey))))"
proof -
  have after: "item \<in> members (cached st' toKey) \<and> item \<in> members (store st' toKey)
            \<and> members (store st' toKey) = insert item (elements (step1_or_cache st toKey))
            \<and> members (cached st' toKey) = insert item (elements (step1_or_cache st toKey))
            \<and> set (seen st fromKey toKey fromKey) = elements (step1_or_cache st fromKey)
            \<and> (fromKey \<noteq> toKey \<longrightarrow>
                 members (store st' fromKey) = elements (step1_or_cache st fromKey)
                 \<and> members (cached st' fromKey) = elements (step1_or_cache st fromKey)
                 \<and> (\<forall>xs. store st fromKey = Some (VArr xs) \<longrightarrow>
                       members (store st' fromKey) = members (store st fromKey)))"
    if run: "moveToSet fromKey toKey item st = (Inr (), st')" for st'
  proof -
    note el = moveToSet_resolved_sets[OF run]
    note mem = moveToSet_resolved_members[OF run]
    have arr: "elements (step1_or_cache st fromKey) = members (store st fromKey)"
      if "store st fromKey = Some (VArr xs)" for xs
      using that by (simp add: step1_or_cache_def)
    from assms el mem arr show ?thesis
      by auto
  qed
  from moveToSet_result_any_item[of fromKey toKey item st other] after show ?thesis
    by blast
qed

theorem moveToSet_absent_item_witness:
  "''world'' \<notin> elements (step1_or_cache (words_manager []) ''unknownWords'')
   \<and> fst (moveToSet ''unknownWords'' ''knownWords'' ''world'' (words_manager [])) = Inr ()
   \<and> fst (moveToSet ''unknownWords'' ''knownWords'' ''hello'' (words_manager [])) = Inr ()
   \<and> ''world'' \<in> members (cached (snd (moveToSet ''unknownWords'' ''knownWords'' ''world'' (words_manager []))) ''knownWords'')
   \<and> members (store (snd (moveToSet ''unknownWords'' ''knownWords'' ''world'' (words_manager []))) ''knownWords'')
       = {''world''}
   \<and> members (cached (snd (moveToSet ''unknownWords'' ''knownWords'' ''world'' (words_manager []))) ''unknownWords'')
       = {''hello''}
   \<and> members (store (snd (moveToSet ''unknownWords'' ''knownWords'' ''world'' (words_manager []))) ''unknownWords'')
       = {''hello''}"
proof -
  let ?st = "words_manager []"
  let ?st' = "snd (moveToSet ''unknownWords'' ''knownWords'' ''world'' ?st)"
  have absent: "''world'' \<notin> elements (step1_or_cache ?st ''unknownWords'')"
    by (simp add: step1_or_cache_def cache_or_empty_def words_manager_def)
  have run: "moveToSet ''unknownWords'' ''knownWords'' ''world'' ?st = (Inr (), ?st')"
    by (simp add: manager_eval words_manager_def)
  have el: "elements (step1_or_cache ?st ''unknownWords'') = {''hello''}"
    "elements (step1_or_cache ?st ''knownWords'') = {}"
    by (simp_all add: step1_or_cache_def cache_or_empty_def words_manager_def)
  have ok: "fst (moveToSet ''unknownWords'' ''knownWords'' ''hello'' ?st) = Inr ()"
    by (simp add: manager_eval words_manager_def)
  have ne: "''unknownWords'' \<noteq> ''knownWords''" by simp
  from moveToSet_absent_item[OF absent, of "''knownWords''" "''hello''"]
  have same: "fst (moveToSet ''unknownWords'' ''knownWords'' ''world'' ?st)
      = fst (moveToSet ''unknownWords'' ''knownWords'' ''hello'' ?st)"
    and after: "\<And>st'. moveToSet ''unknownWords'' ''knownWords'' ''world'' ?st = (Inr (), st') \<Longrightarrow>
            ''world'' \<in> members (cached st' ''knownWords'')
            \<and> members (store st' ''knownWords'') = insert ''world'' (elements (step1_or_cache ?st ''knownWords''))
            \<and> members (store st' ''unknownWords'') = elements (step1_or_cache ?st ''unknownWords'')
            \<and> members (cached st' ''unknownWords'') = elements (step1_or_cache ?st ''unknownWords'')"
    using ne by blast+
  from after[OF run] same ok absent show ?thesis
    unfolding el by simp
qed

text \<open>
  Claim C7, as amended.  For different keys \<open>a\<close> and \<open>b\<close>, when \<open>x\<close> is in the set of \<open>a\<close>
  and not in the set of \<open>b\<close> before \<^verbatim>\<open>moveToSet(a, b, x)\<close>, and that call and the
  \<^verbatim>\<open>moveToSet(b, a, x)\<close> right after it both resolve, \<open>x\<close> is again in the set of \<open>a\<close>
  and not in the set of \<open>b\<close>, in the cache and in the store.
\<close>

theorem moveToSet_round_trip:
  assumes "a \<noteq> b"
    and "moveToSet a b x st = (Inr (), st1)"
    and "moveToSet b a x st1 = (Inr (), st2)"
    and "x \<in> set (seen st a b a)" and "x \<notin> set (seen st a b b)"
  shows "(x \<in> members (cached st2 a) \<longleftrightarrow> x \<in> set (seen st a b a))
       \<and> (x \<in> members (cached st2 b) \<longleftrightarrow> x \<in> set (seen st a b b))
       \<and> (x \<in> members (store st2 a) \<longleftrightarrow> x \<in> set (seen st a b a))
       \<and> (x \<in> members (store st2 b) \<longleftrightarrow> x \<in> set (seen st a b b))"
  using assms(1,4,5) moveToSet_resolved_members[OF assms(3)]
  by simp

text \<open>
  Claim C7 as stated fails when \<open>x\<close> is in neither set before: both calls resolve and
  \<open>x\<close> ends in the set of \<open>a\<close>, where it was not.
\<close>

theorem moveToSet_round_trip_counterexample:
  "fst (moveToSet ''unknownWords'' ''knownWords'' ''hello'' empty_lists_manager) = Inr ()
   \<and> fst (moveToSet ''knownWords'' ''unknownWords'' ''hello''
           (snd (moveToSet ''unknownWords'' ''knownWords'' ''hello'' empty_lists_manager))) = Inr ()
   \<and> ''hello'' \<notin> members (cached empty_lists_manager ''unknownWords'')
   \<and> ''hello'' \<notin> members (store empty_lists_manager ''unknownWords'')
   \<and> ''hello'' \<in> members (cached (snd (moveToSet ''knownWords'' ''unknownWords'' ''hello''
           (snd (moveToSet ''unknownWords'' ''knownWords'' ''hello'' empty_lists_manager)))) ''unknownWords'')"
  by (simp add: manager_eval empty_lists_manager_def)


theorem moveToSet_round_trip_witness:
  "''unknownWords'' \<noteq> ''knownWords''
   \<and> ''hello'' \<in> set (seen (words_manager []) ''unknownWords'' ''knownWords'' ''unknownWords'')
   \<and> ''hello'' \<notin> set (seen (words_manager []) ''unknownWords'' ''knownWords'' ''knownWords'')
   \<and> ''hello'' \<in> members (cached (snd (moveToSet ''knownWords'' ''unknownWords'' ''hello''
           (snd (moveToSet ''unknownWords'' ''knownWords'' ''hello'' (words_manager []))))) ''unknownWords'')
   \<and> ''hello'' \<notin> members (cached (snd (moveToSet ''knownWords'' ''unknownWords'' ''hello''
           (snd (moveToSet ''unknownWords'' ''knownWords'' ''hello'' (words_manager []))))) ''knownWords'')"
proof -
  have ne: "''unknownWords'' \<noteq> ''knownWords''" by simp
  have one: "moveToSet ''unknownWords'' ''knownWords'' ''hello'' (words_manager [])
      = (Inr (), snd (moveToSet ''unknownWords'' ''knownWords'' ''hello'' (words_manager [])))"
    by (simp add: manager_eval words_manager_def)
  have two: "moveToSet ''knownWords'' ''unknownWords'' ''hello''
        (snd (moveToSet ''unknownWords'' ''knownWords'' ''hello'' (words_manager [])))
      = (Inr (), snd (moveToSet ''knownWords'' ''unknownWords'' ''hello''
           (snd (moveToSet ''unknownWords'' ''knownWords'' ''hello'' (words_manager [])))))"
    by (simp add: manager_eval words_manager_def)
  have inA: "''hello'' \<in> set (seen (words_manager []) ''unknownWords'' ''knownWords'' ''unknownWords'')"
    by (simp add: manager_eval words_manager_def)
  have notB: "''hello'' \<notin> set (seen (words_manager []) ''unknownWords'' ''knownWords'' ''knownWords'')"
    by (simp add: manager_eval words_manager_def)
  from moveToSet_round_trip[OF ne one two inA notB] ne inA notB show ?thesis by simp
qed

section \<open>Claims about get and the queue\<close>

lemma map_of_get_result:
  "map_of (fold (\<lambda>k r. obj_put k (f k) r) ks acc) k =
     (if k \<in> set ks then Some (f k) else map_of acc k)"
  by (induction ks arbitrary: acc) (auto simp: map_of_obj_put)

lemma keys_get_result:
  "fst ` set (fold (\<lambda>k r. obj_put k (f k) r) ks acc) = set ks \<union> fst ` set acc"
  by (induction ks arbitrary: acc) (auto simp: keys_obj_put)

lemma enqueue_run:
  "queue st = None \<Longrightarrow> fst (enqueue body st) = fst (body st)"
  by (cases "body st") (auto simp: enqueue_def split: sum.splits)

lemma enqueue_rejected: "queue st = Some e \<Longrightarrow> enqueue body st = (Inl e, st)"
  by (simp add: enqueue_def)

text \<open>
  Claim C9, as amended.  A \<^verbatim>\<open>get\<close> that executes (the queue before it is fulfilled)
  fails with the uninitialized error when the ready flag is not set.  When it is set,
  the call resolves to an object whose keys are the requested ones: the key itself for
  a single key, the elements of an array, the keys of an object of defaults.  Each
  holds what \<^verbatim>\<open>this.cache[key]\<close> reads: the cached value when the cache has the key,
  \<^verbatim>\<open>undefined\<close> (\<open>None\<close>) when it has not and the key names no member of
  \<^verbatim>\<open>Object.prototype\<close>, and the inherited member when it names one.  An
  \<^verbatim>\<open>initialize\<close> that resolves sets the flag and a cache, and leaves the queue
  fulfilled.  (A request that names the key \<^verbatim>\<open>__proto__\<close>, whose assignment to the
  result sets a prototype and is not modelled, is left out.)
\<close>

theorem get_uninitialized_or_cached:
  assumes "queue st = None"
  shows "(\<not> initialized st \<longrightarrow> fst (get_op keys st) = Inl Uninitialized)
       \<and> (\<forall>c. initialized st \<and> cache st = Some c \<and> ''__proto__'' \<notin> set (keyList keys) \<longrightarrow>
            (\<exists>res. fst (get_op keys st) = Inr res
               \<and> (\<forall>k. keys = OneKey k \<longrightarrow> fst ` set res = {k})
               \<and> (\<forall>ks. keys = KeyArray ks \<longrightarrow> fst ` set res = set ks)
               \<and> (\<forall>d. keys = DefaultsObject d \<longrightarrow> fst ` set res = fst ` set d)
               \<and> (\<forall>k \<in> fst ` set res.
                     (\<forall>v. c k = Some v \<longrightarrow> map_of res k = Some (Some v))
                   \<and> (c k = None \<and> k \<notin> set prototype_members \<longrightarrow> map_of res k = Some None)
                   \<and> (c k = None \<and> k \<in> set prototype_members \<longrightarrow>
                        map_of res k = Some (Some (VInherited k))))))
       \<and> (\<forall>schema data st1. \<not> initialized st \<and> initialize schema st = (Inr data, st1) \<longrightarrow>
            initialized st1 \<and> queue st1 = None \<and> cache st1 = data \<and> data \<noteq> None)"
proof (intro conjI allI impI)
  assume "\<not> initialized st"
  with assms show "fst (get_op keys st) = Inl Uninitialized"
    by (simp add: get_op_def enqueue_run get_body_def)
next
  fix c assume a: "initialized st \<and> cache st = Some c \<and> ''__proto__'' \<notin> set (keyList keys)"
  let ?res = "fold (\<lambda>k r. obj_put k (js_read c k) r) (keyList keys) []"
  from a assms have r: "fst (get_op keys st) = Inr ?res"
    by (simp add: get_op_def enqueue_run get_body_def)
  have ks: "fst ` set ?res = set (keyList keys)"
    by (simp add: keys_get_result)
  have v: "map_of ?res k = Some (js_read c k)" if "k \<in> fst ` set ?res" for k
    using that unfolding ks by (simp add: map_of_get_result)
  show "\<exists>res. fst (get_op keys st) = Inr res
               \<and> (\<forall>k. keys = OneKey k \<longrightarrow> fst ` set res = {k})
               \<and> (\<forall>ks. keys = KeyArray ks \<longrightarrow> fst ` set res = set ks)
               \<and> (\<forall>d. keys = DefaultsObject d \<longrightarrow> fst ` set res = fst ` set d)
               \<and> (\<forall>k \<in> fst ` set res.
                     (\<forall>v. c k = Some v \<longrightarrow> map_of res k = Some (Some v))
                   \<and> (c k = None \<and> k \<notin> set prototype_members \<longrightarrow> map_of res k = Some None)
                   \<and> (c k = None \<and> k \<in> set prototype_members \<longrightarrow>
                        map_of res k = Some (Some (VInherited k))))"
  proof (intro exI[of _ ?res] conjI allI impI ballI)
    show "fst (get_op keys st) = Inr ?res" by (rule r)
  next
    fix k assume "keys = OneKey k"
    then show "fst ` set ?res = {k}" using ks by simp
  next
    fix ks' assume "keys = KeyArray ks'"
    then show "fst ` set ?res = set ks'" using ks by simp
  next
    fix d assume "keys = DefaultsObject d"
    then show "fst ` set ?res = fst ` set d" using ks by simp
  next
    fix k w assume "k \<in> fst ` set ?res" "c k = Some w"
    then show "map_of ?res k = Some (Some w)" using v[of k] by (simp add: js_read_def)
  next
    fix k assume "k \<in> fst ` set ?res" "c k = None \<and> k \<notin> set prototype_members"
    then show "map_of ?res k = Some None" using v[of k] by (simp add: js_read_def)
  next
    fix k assume "k \<in> fst ` set ?res" "c k = None \<and> k \<in> set prototype_members"
    then show "map_of ?res k = Some (Some (VInherited k))" using v[of k] by (simp add: js_read_def)
  qed
next
  fix schema data st1
  assume a: "\<not> initialized st \<and> initialize schema st = (Inr data, st1)"
  with assms show "initialized st1" "queue st1 = None" "cache st1 = data" "data \<noteq> None"
    by (auto simp: initialize_def enqueue_def storage_get_eq split: if_splits)
qed

theorem get_uninitialized_or_cached_witness:
  "queue (new_StorageManager Map.empty []) = None
   \<and> \<not> initialized (new_StorageManager Map.empty [])
   \<and> fst (get_op (OneKey ''knownWords'') (new_StorageManager Map.empty [])) = Inl Uninitialized
   \<and> queue empty_lists_manager = None \<and> initialized empty_lists_manager
   \<and> fst (get_op (OneKey ''knownWords'') empty_lists_manager)
       = Inr [(''knownWords'', Some (VArr []))]
   \<and> fst (get_op (KeyArray [''knownWords'', ''missing'']) empty_lists_manager)
       = Inr [(''knownWords'', Some (VArr [])), (''missing'', None)]
   \<and> fst (get_op (DefaultsObject [(''missing'', VBool True), (''unknownWords'', VArr [''x''])])
           empty_lists_manager)
       = Inr [(''missing'', None), (''unknownWords'', Some (VArr []))]"
proof -
  have q0: "queue (new_StorageManager Map.empty []) = None"
    by (simp add: new_StorageManager_def)
  have q1: "queue empty_lists_manager = None"
    by (simp add: manager_eval empty_lists_manager_def)
  from get_uninitialized_or_cached[OF q0, of "OneKey ''knownWords''"]
       get_uninitialized_or_cached[OF q1, of "KeyArray [''knownWords'', ''missing'']"]
  show ?thesis
    by (simp add: manager_eval empty_lists_manager_def)
qed

text \<open>
  Claim C9 as stated fails for a key that names a member of \<^verbatim>\<open>Object.prototype\<close>: the
  cache has no \<^verbatim>\<open>constructor\<close>, and \<^verbatim>\<open>get('constructor')\<close> resolves to the inherited
  member, not to \<^verbatim>\<open>undefined\<close>.
\<close>

theorem get_inherited_member_counterexample:
  "queue (words_manager []) = None \<and> initialized (words_manager [])
   \<and> cached (words_manager []) ''constructor'' = None
   \<and> fst (get_op (OneKey ''constructor'') (words_manager []))
       = Inr [(''constructor'', Some (VInherited ''constructor''))]"
  by (simp add: manager_eval words_manager_def)

text \<open>
  Claim C1 does not hold of the code for \<^verbatim>\<open>set\<close>, \<^verbatim>\<open>update\<close> and \<^verbatim>\<open>get\<close>.  A \<^verbatim>\<open>set\<close>
  whose adapter write is rejected leaves \<^verbatim>\<open>this.queue\<close> rejected: the \<^verbatim>\<open>get\<close> and the
  \<^verbatim>\<open>set\<close> enqueued after it are rejected with the error of the first call and make no
  adapter call, although their bodies, run on the same state, would resolve.
\<close>

theorem failed_set_blocks_next_operation:
  "fst (set_op [''theme'' \<mapsto> VStr ''dark''] (words_manager [True, False])) = Inl AdapterFailure
   \<and> fst (get_op (OneKey ''knownWords'')
           (snd (set_op [''theme'' \<mapsto> VStr ''dark''] (words_manager [True, False]))))
       = Inl AdapterFailure
   \<and> fst (get_body (OneKey ''knownWords'')
           (snd (set_op [''theme'' \<mapsto> VStr ''dark''] (words_manager [True, False]))))
       = Inr [(''knownWords'', Some (VArr []))]
   \<and> fst (set_op [''theme'' \<mapsto> VStr ''light'']
           (snd (set_op [''theme'' \<mapsto> VStr ''dark''] (words_manager [True, False]))))
       = Inl AdapterFailure
   \<and> length (calls (snd (set_op [''theme'' \<mapsto> VStr ''light'']
           (snd (set_op [''theme'' \<mapsto> VStr ''dark''] (words_manager [True, False]))))))
       = length (calls (snd (set_op [''theme'' \<mapsto> VStr ''dark''] (words_manager [True, False]))))
   \<and> fst (setInternal [''theme'' \<mapsto> VStr ''light''] False
           (snd (set_op [''theme'' \<mapsto> VStr ''dark''] (words_manager [True, False]))))
       = Inr ()"
  by (simp add: manager_eval words_manager_def)

text \<open>
  In general: on a rejected queue no body runs and every operation is rejected with the
  queue's error; a failing \<^verbatim>\<open>get\<close>, \<^verbatim>\<open>set\<close> or \<^verbatim>\<open>update\<close> leaves the queue rejected,
  and only \<^verbatim>\<open>moveToSet\<close> leaves it fulfilled.
\<close>

lemma rejected_queue_skips_body:
  assumes "queue st = Some e"
  shows "run_op (Get keys) st = (Inl e, st)"
    and "run_op (SetItems items) st = (Inl e, st)"
    and "run_op (Update k f) st = (Inl e, st)"
    and "run_op (MoveToSet a b x) st = (Inl e, st\<lparr>queue := None\<rparr>)"
  using assms
  by (simp_all add: lift_reply_def get_op_def set_op_def update_op_def enqueue_rejected
      moveToSet_skipped)

lemma failure_rejects_queue:
  assumes "queue st = None"
  shows "run_op (Get keys) st = (Inl e, st') \<Longrightarrow> queue st' = Some e"
    and "run_op (SetItems items) st = (Inl e, st') \<Longrightarrow> queue st' = Some e"
    and "run_op (Update k f) st = (Inl e, st') \<Longrightarrow> queue st' = Some e"
    and "run_op (MoveToSet a b x) st = (r, st') \<Longrightarrow> queue st' = None"
  using assms
  by (auto simp: lift_reply_def get_op_def set_op_def update_op_def enqueue_def
      moveToSet_def enqueue_caught_def split: sum.splits prod.splits)

section \<open>Writes through the queue\<close>

lemma setInternal_noskip_eq:
  "setInternal items False st =
     (if \<not> initialized st then (Inl Uninitialized, st)
      else if \<not> fst (outcome st)
        then (Inl AdapterFailure, (snd (outcome st))\<lparr>calls := calls st @ [Read AllKeys False]\<rparr>)
      else
        (let st1 = (snd (outcome st))\<lparr>calls := calls st @ [Read AllKeys True]\<rparr> in
         (if fst (outcome st1) then Inr () else Inl AdapterFailure,
          (snd (outcome st1))\<lparr>
             cache := (if fst (outcome st1) then Some (store st ++ items) else cache st),
             store := (if fst (outcome st1) then store st ++ (store st ++ items) else store st),
             calls := calls st @ [Read AllKeys True, Write (store st ++ items) (fst (outcome st1))]\<rparr>)))"
  by (simp add: setInternal_def storage_get_eq storage_set_eq Let_def)

lemma map_add_absorb: "(s ++ s) ++ m = s ++ m"
  by (rule ext) (simp add: map_add_def split: option.splits)

lemma map_add_self: "s ++ s = s"
  by (rule ext) (simp add: map_add_def split: option.splits)

lemma setInternal_noskip_Inr:
  assumes "setInternal items False st = (Inr u, st')"
  shows "initialized st" "initialized st'" "queue st' = queue st"
    "cache st' = Some (store st ++ items)" "store st' = store st ++ items"
    "calls st' = calls st @ [Read AllKeys True, Write (store st ++ items) True]"
  using assms
  by (auto simp: setInternal_noskip_eq Let_def map_add_absorb split: if_splits)

lemma setInternal_noskip_Inl:
  assumes "setInternal items False st = (Inl e, st')"
  shows "initialized st' = initialized st" "queue st' = queue st"
    "cache st' = cache st" "store st' = store st"
  using assms
  by (auto simp: setInternal_noskip_eq Let_def split: if_splits)

lemma set_op_Inr:
  assumes "set_op items st = (Inr u, st')"
  shows "queue st = None \<and> initialized st \<and> initialized st' \<and> queue st' = None \<and>
    cache st' = Some (store st ++ items) \<and> store st' = store st ++ items \<and>
    calls st' = calls st @ [Read AllKeys True, Write (store st ++ items) True]"
proof (cases "setInternal items False st")
  case (Pair rb sb)
  have q: "queue st = None"
    using assms by (cases "queue st") (simp_all add: set_op_def enqueue_def)
  with assms Pair have rb: "rb = Inr ()" and st': "st' = sb\<lparr>queue := None\<rparr>"
    by (auto simp: set_op_def enqueue_def split: sum.splits)
  from Pair rb have b': "setInternal items False st = (Inr (), sb)" by simp
  from setInternal_noskip_Inr[OF b'] st' q show ?thesis
    by simp
qed

lemma set_op_Inl:
  assumes "set_op items st = (Inl e, st')"
  shows "initialized st' = initialized st \<and> cache st' = cache st \<and> store st' = store st \<and>
    queue st' \<noteq> None"
proof (cases "queue st")
  case (Some e')
  with assms show ?thesis
    by (auto simp: set_op_def enqueue_def)
next
  case None
  obtain rb sb where b: "setInternal items False st = (rb, sb)"
    by (cases "setInternal items False st")
  with assms None have rb: "rb = Inl e" and st': "st' = sb\<lparr>queue := Some e\<rparr>"
    by (auto simp: set_op_def enqueue_def split: sum.splits)
  from b rb have b': "setInternal items False st = (Inl e, sb)" by simp
  from setInternal_noskip_Inl[OF b'] st' show ?thesis
    by simp
qed






lemma update_op_Inr:
  assumes "update_op k f st = (Inr v, st')"
  shows "\<exists>m. last_write (new_calls st st') = Some (m, True) \<and> cache st' = Some m \<and>
             store st' = store st ++ m \<and> m k = Some v"
proof -
  have q: "queue st = None"
    using assms by (cases "queue st") (simp_all add: update_op_def enqueue_def)
  obtain rb sb where b: "update_body k f st = (rb, sb)"
    by (cases "update_body k f st")
  with assms q have rb: "rb = Inr v" and st': "st' = sb\<lparr>queue := None\<rparr>"
    by (auto simp: update_op_def enqueue_def split: sum.splits)
  let ?st1 = "(snd (outcome st))\<lparr>calls := calls st @ [Read (Keys [k]) True]\<rparr>"
  from b rb obtain u where s: "setInternal [k \<mapsto> v] False ?st1 = (Inr u, sb)"
    by (auto simp: update_body_def storage_get_eq split: if_splits option.splits sum.splits prod.splits)
  from setInternal_noskip_Inr[OF s] st' show ?thesis
    by (simp add: new_calls_def last_write_def map_add_self)
qed


lemma moveToSet_Inr_write:
  assumes "moveToSet a b x st = (Inr u, st')"
  shows "\<exists>m. last_write (new_calls st st') = Some (m, True) \<and> cache st' = Some m \<and>
             store st' = store st ++ m \<and> m a \<noteq> None \<and> m b \<noteq> None"
proof -
  have q: "queue st = None"
    using assms by (cases "queue st") (simp_all add: moveToSet_skipped)
  from assms q obtain rb sb where body: "moveToSet_body a b x st = (rb, sb)"
    and r: "Inr u = rb" and st': "st' = sb\<lparr>queue := None\<rparr>"
    by (rule moveToSet_cases)
  from body r st' show ?thesis
    by (cases rule: moveToSet_body_cases) (auto simp: last_write_def)
qed

lemma completed_write_cached:
  assumes "run_op op st = (Inr v, st')" and "k \<in> written_keys op"
  shows "\<exists>m w. last_write (new_calls st st') = Some (m, True) \<and> m k = Some w \<and>
               cached st' k = Some w \<and> store st' k = Some w"
proof (cases op)
  case (Get keys)
  with assms show ?thesis by simp
next
  case (SetItems items)
  with assms obtain u where s: "set_op items st = (Inr u, st')"
    by (auto simp: lift_reply_def split: sum.splits prod.splits)
  from assms(2) SetItems obtain w where w: "items k = Some w" by auto
  from set_op_Inr[OF s] w show ?thesis
    by (simp add: cached_def last_write_def)
next
  case (Update k' f)
  with assms obtain nv where s: "update_op k' f st = (Inr nv, st')"
    by (auto simp: lift_reply_def split: sum.splits prod.splits)
  from update_op_Inr[OF s] assms(2) Update show ?thesis
    by (auto simp: cached_def)
next
  case (MoveToSet a b x)
  with assms obtain u where s: "moveToSet a b x st = (Inr u, st')"
    by (auto simp: lift_reply_def split: sum.splits prod.splits)
  from moveToSet_Inr_write[OF s] assms(2) MoveToSet show ?thesis
    by (auto simp: cached_def)
qed

lemma last_set_value_unresolved:
  "Inr () \<notin> set rs \<Longrightarrow> last_set_value k (zip iss rs) v = v"
proof (induction iss arbitrary: rs)
  case Nil
  show ?case by simp
next
  case (Cons i iss)
  show ?case
  proof (cases rs)
    case Nil
    then show ?thesis by simp
  next
    case (Cons r rs')
    with Cons.prems Cons.IH[of rs'] show ?thesis by (cases r) auto
  qed
qed

lemma run_sets_length: "run_sets iss st = (rs, st') \<Longrightarrow> length rs = length iss"
  by (induction iss arbitrary: st rs) (auto split: prod.splits)

lemma run_sets_final:
  assumes "run_sets iss st = (rs, st')"
  shows "store st' k = last_set_value k (zip iss rs) (store st k)
       \<and> (if Inr () \<in> set rs then cached st' k = last_set_value k (zip iss rs) (store st k)
          else cache st' = cache st)"
  using assms
proof (induction iss arbitrary: st rs st')
  case Nil
  then show ?case by auto
next
  case (Cons items rest)
  obtain r st1 where one: "set_op items st = (r, st1)" by (cases "set_op items st")
  obtain rs' st2 where more: "run_sets rest st1 = (rs', st2)" by (cases "run_sets rest st1")
  from Cons.prems one more have rs: "rs = r # rs'" and st': "st' = st2" by auto
  note IH = Cons.IH[OF more]
  show ?case
  proof (cases r)
    case (Inl e)
    from one Inl have "set_op items st = (Inl e, st1)" by simp
    from set_op_Inl[OF this] IH show ?thesis
      unfolding rs st' Inl by auto
  next
    case (Inr u)
    from one Inr have "set_op items st = (Inr u, st1)" by simp
    note s = set_op_Inr[OF this]
    have st1k: "store st1 k = (case items k of Some w \<Rightarrow> Some w | None \<Rightarrow> store st k)"
      using s by (simp add: map_add_def split: option.splits)
    have c1: "cached st1 k = store st1 k"
      using s by (simp add: cached_def)
    show ?thesis
    proof (cases "Inr () \<in> set rs'")
      case True
      with IH st1k show ?thesis unfolding rs st' Inr by auto
    next
      case False
      with IH have "cache st2 = cache st1" and "store st2 k = last_set_value k (zip rest rs') (store st1 k)"
        by auto
      moreover have "last_set_value k (zip rest rs') (store st1 k) = store st1 k"
        using False by (rule last_set_value_unresolved)
      ultimately show ?thesis
        using c1 st1k unfolding rs st' Inr by (auto simp: cached_def)
    qed
  qed
qed

text \<open>
  Claim C6.  When a \<^verbatim>\<open>set\<close>, \<^verbatim>\<open>update\<close> or \<^verbatim>\<open>moveToSet\<close> resolves, its last adapter
  call is a successful write, and for every key the operation wrote the cache holds
  the value of that write, which is also what the store now holds.  After a sequence of
  \<^verbatim>\<open>set\<close> calls of which at least one resolved, the cached value of a key is that of
  the last resolved call that included the key, and the value the store held before
  the sequence when no resolved call included it.
\<close>

theorem completed_write_is_cached:
  "(run_op op st = (Inr v, st') \<and> k \<in> written_keys op \<longrightarrow>
      (\<exists>m w. last_write (new_calls st st') = Some (m, True) \<and> m k = Some w \<and>
             cached st' k = Some w \<and> store st' k = Some w))
   \<and> (run_sets iss st0 = (rs, stn) \<and> Inr () \<in> set rs \<longrightarrow>
        cached stn k = last_set_value k (zip iss rs) (store st0 k))"
  using completed_write_cached[of op st v st' k] run_sets_final[of iss st0 rs stn k]
  by auto

theorem completed_write_is_cached_witness:
  "fst (run_op (MoveToSet ''unknownWords'' ''knownWords'' ''hello'') (words_manager [])) = Inr Done
   \<and> ''knownWords'' \<in> written_keys (MoveToSet ''unknownWords'' ''knownWords'' ''hello'')
   \<and> cached (snd (run_op (MoveToSet ''unknownWords'' ''knownWords'' ''hello'') (words_manager [])))
        ''knownWords'' = Some (VArr [''hello''])
   \<and> store (snd (run_op (MoveToSet ''unknownWords'' ''knownWords'' ''hello'') (words_manager [])))
        ''knownWords'' = Some (VArr [''hello''])
   \<and> fst (run_sets [[''theme'' \<mapsto> VStr ''dark''],
                     [''theme'' \<mapsto> VStr ''light'', ''size'' \<mapsto> VNum 2],
                     [''size'' \<mapsto> VNum 3]] (words_manager [])) = [Inr (), Inr (), Inr ()]
   \<and> cached (snd (run_sets [[''theme'' \<mapsto> VStr ''dark''],
                     [''theme'' \<mapsto> VStr ''light'', ''size'' \<mapsto> VNum 2],
                     [''size'' \<mapsto> VNum 3]] (words_manager []))) ''theme'' = Some (VStr ''light'')
   \<and> cached (snd (run_sets [[''theme'' \<mapsto> VStr ''dark''],
                     [''theme'' \<mapsto> VStr ''light'', ''size'' \<mapsto> VNum 2],
                     [''size'' \<mapsto> VNum 3]] (words_manager []))) ''knownWords'' = Some (VArr [])"
proof -
  let ?op = "MoveToSet ''unknownWords'' ''knownWords'' ''hello''"
  let ?iss = "[[''theme'' \<mapsto> VStr ''dark''],
               [''theme'' \<mapsto> VStr ''light'', ''size'' \<mapsto> VNum 2],
               [''size'' \<mapsto> VNum 3]]"
  have r1: "fst (run_op ?op (words_manager [])) = Inr Done"
    by (simp add: manager_eval lift_reply_def words_manager_def)
  have r2: "fst (run_sets ?iss (words_manager [])) = [Inr (), Inr (), Inr ()]"
    by (simp add: manager_eval words_manager_def split_beta)
  have s0: "store (words_manager []) ''theme'' = None"
    "store (words_manager []) ''knownWords'' = Some (VArr [])"
    by (simp_all add: words_manager_def)
  have e1: "run_op ?op (words_manager []) = (Inr Done, snd (run_op ?op (words_manager [])))"
    using r1 by (metis prod.collapse)
  have e2: "run_sets ?iss (words_manager []) = ([Inr (), Inr (), Inr ()], snd (run_sets ?iss (words_manager [])))"
    using r2 by (metis prod.collapse)
  have w: "''knownWords'' \<in> written_keys ?op" and ok: "Inr () \<in> set [Inr (), Inr (), Inr ()]"
    by simp_all
  from completed_write_is_cached[of ?op "words_manager []" Done "snd (run_op ?op (words_manager []))"
      "''knownWords''" ?iss "words_manager []" "[Inr (), Inr (), Inr ()]"
      "snd (run_sets ?iss (words_manager []))"] e1 e2 w ok
  have a: "\<exists>w. cached (snd (run_op ?op (words_manager []))) ''knownWords'' = Some w \<and>
             store (snd (run_op ?op (words_manager []))) ''knownWords'' = Some w"
    and p3': "cached (snd (run_sets ?iss (words_manager []))) ''knownWords''
        = last_set_value ''knownWords'' (zip ?iss [Inr (), Inr (), Inr ()]) (store (words_manager []) ''knownWords'')"
    by blast+
  from completed_write_is_cached[of ?op "words_manager []" Done "snd (run_op ?op (words_manager []))"
      "''theme''" ?iss "words_manager []" "[Inr (), Inr (), Inr ()]"
      "snd (run_sets ?iss (words_manager []))"] e2 ok
  have p2': "cached (snd (run_sets ?iss (words_manager []))) ''theme''
        = last_set_value ''theme'' (zip ?iss [Inr (), Inr (), Inr ()]) (store (words_manager []) ''theme'')"
    by blast
  have "cached (snd (run_op ?op (words_manager []))) ''knownWords'' = Some (VArr [''hello''])"
    by (simp add: manager_eval lift_reply_def words_manager_def)
  with a have p1: "cached (snd (run_op ?op (words_manager []))) ''knownWords'' = Some (VArr [''hello''])
      \<and> store (snd (run_op ?op (words_manager []))) ''knownWords'' = Some (VArr [''hello''])"
    by auto
  from p2' s0 have p2: "cached (snd (run_sets ?iss (words_manager []))) ''theme'' = Some (VStr ''light'')"
    by simp
  from p3' s0 have p3: "cached (snd (run_sets ?iss (words_manager []))) ''knownWords'' = Some (VArr [])"
    by simp
  from r1 r2 p1 p2 p3 show ?thesis by simp
qed

section \<open>The flush: suspension, attempts and chunks\<close>

lemma mergePending_frame [simp]:
  "pendingWrites (mergePending args w) = assign (pendingWrites w) args"
  "flushInProgress (mergePending args w) = flushInProgress w"
  "flushAttempt (mergePending args w) = flushAttempt w"
  "flushMetrics (mergePending args w) = flushMetrics w"
  "storageManager (mergePending args w) = storageManager w"
  "incoming (mergePending args w) = incoming w"
  "trace (mergePending args w) = trace w"
  by (simp_all add: mergePending_def scheduleFlush_def clearTimeout_def Let_def split: option.splits)

lemma fold_mergePending_frame [simp]:
  "pendingWrites (fold mergePending batch w) = merge_all batch (pendingWrites w)"
  "flushInProgress (fold mergePending batch w) = flushInProgress w"
  "flushAttempt (fold mergePending batch w) = flushAttempt w"
  "flushMetrics (fold mergePending batch w) = flushMetrics w"
  "storageManager (fold mergePending batch w) = storageManager w"
  "incoming (fold mergePending batch w) = incoming w"
  "trace (fold mergePending batch w) = trace w"
  by (induction batch arbitrary: w; simp add: merge_all_def)+

lemma suspend_frame [simp]:
  "flushInProgress (suspend w) = flushInProgress w"
  "flushAttempt (suspend w) = flushAttempt w"
  "flushMetrics (suspend w) = flushMetrics w"
  "storageManager (suspend w) = storageManager w"
  "trace (suspend w) = trace w"
  by (simp_all add: suspend_def split: list.splits)

lemma suspend_buffer:
  "incoming (suspend w) = drop 1 (incoming w)"
  "pendingWrites (suspend w) = merge_all (concat (take 1 (incoming w))) (pendingWrites w)"
  by (simp_all add: suspend_def merge_all_def split: list.splits)

lemma absorbed_refl: "incoming w' = incoming w \<Longrightarrow> pendingWrites w' = pendingWrites w \<Longrightarrow> absorbed w w'"
  unfolding absorbed_def by (rule exI[of _ 0]) (simp add: merge_all_def)

lemma merge_all_append: "merge_all (xs @ ys) p = merge_all ys (merge_all xs p)"
  by (simp add: merge_all_def)

lemma absorbed_trans:
  assumes "absorbed w w1" and "absorbed w1 w2"
  shows "absorbed w w2"
proof -
  from assms(1) obtain n where n: "incoming w1 = drop n (incoming w)"
    "pendingWrites w1 = merge_all (concat (take n (incoming w))) (pendingWrites w)"
    unfolding absorbed_def by blast
  from assms(2) obtain m where m: "incoming w2 = drop m (incoming w1)"
    "pendingWrites w2 = merge_all (concat (take m (incoming w1))) (pendingWrites w1)"
    unfolding absorbed_def by blast
  have "take (n + m) (incoming w) = take n (incoming w) @ take m (drop n (incoming w))"
    by (simp add: take_add)
  with n m show ?thesis
    unfolding absorbed_def
    by (intro exI[of _ "n + m"]) (simp add: merge_all_append add.commute)
qed

lemma absorbed_suspend: "absorbed w (suspend w)"
  unfolding absorbed_def by (rule exI[of _ 1]) (simp add: suspend_buffer)

lemma absorbed_cong:
  "absorbed w w1 \<Longrightarrow> incoming w2 = incoming w1 \<Longrightarrow> pendingWrites w2 = pendingWrites w1 \<Longrightarrow> absorbed w w2"
  "absorbed w1 w' \<Longrightarrow> incoming w0 = incoming w1 \<Longrightarrow> pendingWrites w0 = pendingWrites w1 \<Longrightarrow> absorbed w0 w'"
  unfolding absorbed_def by simp_all

lemma absorbed_upd [simp]:
  "absorbed w (w'\<lparr>trace := t\<rparr>) = absorbed w w'"
  "absorbed w (w'\<lparr>flushMetrics := fm\<rparr>) = absorbed w w'"
  "absorbed w (w'\<lparr>storageManager := sm\<rparr>) = absorbed w w'"
  "absorbed (w\<lparr>trace := t\<rparr>) w' = absorbed w w'"
  "absorbed (w\<lparr>flushMetrics := fm\<rparr>) w' = absorbed w w'"
  "absorbed (w\<lparr>storageManager := sm\<rparr>) w' = absorbed w w'"
  by (simp_all add: absorbed_def)

lemma attempt3:
  assumes "writeChunkWithRetry c 3 w = (r, w')"
  shows "absorbed w w' \<and> flushInProgress w' = flushInProgress w \<and>
         trace w' = trace w @ [ChunkWrite c 3 (resolved r)] \<and>
         failedFlushCount (flushMetrics w') =
           failedFlushCount (flushMetrics w) + (if resolved r then 0 else 1) \<and>
         (resolved r \<longrightarrow> r = Inr True)"
proof (cases "set_op (map_of c) (storageManager w)")
  case (Pair r0 m1)
  have a: "absorbed w (suspend (w\<lparr>storageManager := m1\<rparr>))"
    using absorbed_suspend[of "w\<lparr>storageManager := m1\<rparr>"] by simp
  from assms Pair a show ?thesis
    by (cases r0) (auto simp: writeChunkWithRetry.simps[of c 3 w] Let_def)
qed

lemma attempt2:
  assumes "writeChunkWithRetry c 2 w = (r, w')"
  shows "absorbed w w' \<and> flushInProgress w' = flushInProgress w \<and>
         (trace w' = trace w @ [ChunkWrite c 2 True] \<and> resolved r \<or>
          trace w' = trace w @ [ChunkWrite c 2 False, Backoff 200, ChunkWrite c 3 (resolved r)]) \<and>
         failedFlushCount (flushMetrics w') =
           failedFlushCount (flushMetrics w) + (if resolved r then 0 else 1) \<and>
         (resolved r \<longrightarrow> r = Inr True)"
proof (cases "set_op (map_of c) (storageManager w)")
  case (Pair r0 m1)
  let ?w1 = "suspend (w\<lparr>storageManager := m1\<rparr>)"
  have a: "absorbed w ?w1"
    using absorbed_suspend[of "w\<lparr>storageManager := m1\<rparr>"] by simp
  show ?thesis
  proof (cases r0)
    case (Inr u)
    with assms Pair a show ?thesis
      by (auto simp: writeChunkWithRetry.simps[of c 2 w] Let_def)
  next
    case (Inl e)
    let ?w2 = "?w1\<lparr>flushMetrics := (flushMetrics ?w1)\<lparr>lastFlushError := Some e\<rparr>,
                     trace := trace ?w1 @ [ChunkWrite c 2 False]\<rparr>"
    let ?w3 = "suspend (?w2\<lparr>trace := trace ?w2 @ [Backoff (100 * 2 ^ (2 - 1))]\<rparr>)"
    from assms Pair Inl have rec: "writeChunkWithRetry c 3 ?w3 = (r, w')"
      by (simp add: writeChunkWithRetry.simps[of c 2 w] Let_def)
    have b: "absorbed ?w1 ?w3"
      using absorbed_suspend[of "?w2\<lparr>trace := trace ?w2 @ [Backoff (100 * 2 ^ (2 - 1))]\<rparr>"]
      by simp
    from attempt3[OF rec] absorbed_trans[OF a b] show ?thesis
      by (auto intro: absorbed_trans)
  qed
qed

lemma attempt1:
  assumes "writeChunkWithRetry c 1 w = (r, w')"
  shows "absorbed w w' \<and> flushInProgress w' = flushInProgress w \<and>
         (\<exists>ts. trace w' = trace w @ ts \<and> chunk_run c ts (resolved r)) \<and>
         failedFlushCount (flushMetrics w') =
           failedFlushCount (flushMetrics w) + (if resolved r then 0 else 1) \<and>
         (resolved r \<longrightarrow> r = Inr True)"
proof (cases "set_op (map_of c) (storageManager w)")
  case (Pair r0 m1)
  let ?w1 = "suspend (w\<lparr>storageManager := m1\<rparr>)"
  have a: "absorbed w ?w1"
    using absorbed_suspend[of "w\<lparr>storageManager := m1\<rparr>"] by simp
  show ?thesis
  proof (cases r0)
    case (Inr u)
    with assms[unfolded writeChunkWithRetry.simps[of c 1 w]] Pair a show ?thesis
      by (auto simp: Let_def chunk_run_def)
  next
    case (Inl e)
    let ?w2 = "?w1\<lparr>flushMetrics := (flushMetrics ?w1)\<lparr>lastFlushError := Some e\<rparr>,
                     trace := trace ?w1 @ [ChunkWrite c 1 False]\<rparr>"
    let ?w3 = "suspend (?w2\<lparr>trace := trace ?w2 @ [Backoff (100 * 2 ^ (1 - 1))]\<rparr>)"
    from assms[unfolded writeChunkWithRetry.simps[of c 1 w]] Pair Inl
    have rec: "writeChunkWithRetry c 2 ?w3 = (r, w')"
      by (simp add: Let_def numeral_2_eq_2)
    have b: "absorbed ?w1 ?w3"
      using absorbed_suspend[of "?w2\<lparr>trace := trace ?w2 @ [Backoff (100 * 2 ^ (1 - 1))]\<rparr>"]
      by simp
    from attempt2[OF rec] absorbed_trans[OF a b] show ?thesis
      by (cases "resolved r") (auto intro: absorbed_trans simp: chunk_run_def)
  qed
qed











lemma assign_simps:
  "assign a [] = a"
  "assign a (kv # b) = assign (obj_put (fst kv) (snd kv) a) b"
  by (simp_all add: assign_def split_beta)

lemma distinct_assign: "distinct (map fst a) \<Longrightarrow> distinct (map fst (assign a b))"
  by (induction b arbitrary: a) (simp_all add: assign_simps distinct_obj_put)

lemma keys_assign: "fst ` set (assign a b) = fst ` set a \<union> fst ` set b"
  by (induction b arbitrary: a) (simp_all add: assign_simps keys_obj_put)

lemma js_ordered_assign: "js_ordered a \<Longrightarrow> js_ordered (assign a b)"
  by (induction b arbitrary: a) (simp_all add: assign_simps js_ordered_obj_put)

lemma map_of_assign:
  "distinct (map fst b) \<Longrightarrow> map_of (assign a b) = map_of a ++ map_of b"
proof (induction b arbitrary: a)
  case Nil
  show ?case by (simp add: assign_simps)
next
  case (Cons kv b)
  from Cons.prems have nk: "map_of b (fst kv) = None" and d: "distinct (map fst b)"
    by (auto simp: map_of_eq_None_iff)
  have "map_of (assign a (kv # b)) = map_of (obj_put (fst kv) (snd kv) a) ++ map_of b"
    using Cons.IH[OF d, of "obj_put (fst kv) (snd kv) a"] by (simp add: assign_simps)
  also have "\<dots> = map_of a ++ map_of (kv # b)"
  proof (rule ext)
    fix x
    show "(map_of (obj_put (fst kv) (snd kv) a) ++ map_of b) x = (map_of a ++ map_of (kv # b)) x"
      using nk by (cases kv) (simp add: map_add_def map_of_obj_put split: option.splits)
  qed
  finally show ?case .
qed

lemma distinct_merge_all: "distinct (map fst p) \<Longrightarrow> distinct (map fst (merge_all reqs p))"
  unfolding merge_all_def by (induction reqs arbitrary: p) (auto simp: distinct_assign)

lemma distinct_arrived: "distinct (map fst (arrived w w'))"
  unfolding arrived_def by (rule distinct_merge_all) simp

lemma js_ordered_merge_all: "js_ordered p \<Longrightarrow> js_ordered (merge_all reqs p)"
  unfolding merge_all_def by (induction reqs arbitrary: p) (auto simp: js_ordered_assign)







lemma flushLoop_effect:
  assumes "flushLoop p keys i w = (r, w')"
  shows "absorbed w w' \<and> flushInProgress w' = flushInProgress w \<and>
         failedFlushCount (flushMetrics w') =
           failedFlushCount (flushMetrics w) + (if resolved r then 0 else 1)"
  using assms
proof (induction "length keys - i" arbitrary: i w rule: less_induct)
  case less
  show ?case
  proof (cases "i < length keys")
    case False
    with less.prems have "r = Inr True" "w' = w"
      by (simp_all add: flushLoop.simps[of p keys i w])
    then show ?thesis
      by (auto intro: absorbed_refl)
  next
    case True
    let ?c = "chunkOf p (take chunkSize (drop i keys))"
    obtain r1 w1 where chunk: "writeChunkWithRetry ?c 1 w = (r1, w1)"
      by (cases "writeChunkWithRetry ?c 1 w")
    note a1 = attempt1[OF chunk]
    show ?thesis
    proof (cases r1)
      case (Inl e)
      with less.prems True chunk have "r = Inl e" "w' = w1"
        by (simp_all add: flushLoop.simps[of p keys i w])
      with a1 Inl show ?thesis
        by auto
    next
      case (Inr b)
      with less.prems True chunk
      have rec: "flushLoop p keys (i + chunkSize) w1 = (r, w')"
        by (simp add: flushLoop.simps[of p keys i w])
      have "length keys - (i + chunkSize) < length keys - i"
        using True by (simp add: chunkSize_def)
      from less.hyps[OF this rec] a1 Inr show ?thesis
        by (auto intro: absorbed_trans)
    qed
  qed
qed


section \<open>Claims about the flusher\<close>

lemma absorbed_arrived:
  assumes "absorbed w1 w2" and "pendingWrites w1 = []" and "incoming w1 = incoming w"
    and "incoming w' = incoming w2"
  shows "pendingWrites w2 = arrived w w'"
proof -
  from assms(1,2) obtain n where n: "incoming w2 = drop n (incoming w1)"
    "pendingWrites w2 = merge_all (concat (take n (incoming w1))) []"
    unfolding absorbed_def by auto
  have "take (length (incoming w1) - length (drop n (incoming w1))) (incoming w1)
      = take n (incoming w1)"
    by (cases "n \<le> length (incoming w1)") simp_all
  with n assms(3,4) show ?thesis by (simp add: arrived_def)
qed

lemma flushPendingWrites_runs:
  assumes "pendingWrites w \<noteq> []" and "\<not> flushInProgress w"
    and "flushPendingWrites w = (r, w')"
  shows "pendingWrites w' =
           (if resolved r then arrived w w' else assign (pendingWrites w) (arrived w w'))
       \<and> failedFlushCount (flushMetrics w') =
           failedFlushCount (flushMetrics w) + (if resolved r then 0 else 1)
       \<and> \<not> flushInProgress w'"
proof -
  let ?p = "pendingWrites w"
  let ?w1 = "w\<lparr>flushInProgress := True, pendingWrites := []\<rparr>"
  obtain r2 w2 where loop: "flushLoop ?p (map fst ?p) 0 ?w1 = (r2, w2)"
    by (cases "flushLoop ?p (map fst ?p) 0 ?w1")
  from flushLoop_effect[OF loop] have
    eff: "absorbed ?w1 w2" "flushInProgress w2 = True"
      "failedFlushCount (flushMetrics w2) =
         failedFlushCount (flushMetrics w) + (if resolved r2 then 0 else 1)"
    by auto
  show ?thesis
  proof (cases r2)
    case (Inr b)
    with assms loop have r: "r = Inr (Some True)"
      and w': "w' = w2\<lparr>flushAttempt := 0, flushInProgress := False\<rparr>"
      by (simp_all add: flushPendingWrites_def Let_def)
    from w' have fields: "pendingWrites w' = pendingWrites w2"
      "flushMetrics w' = flushMetrics w2" "\<not> flushInProgress w'" "incoming w' = incoming w2"
      by simp_all
    have "pendingWrites w2 = arrived w w'"
      using eff(1) by (rule absorbed_arrived) (simp_all add: fields)
    with eff Inr r fields show ?thesis
      by simp
  next
    case (Inl e)
    with assms loop have r: "r = Inl e"
      and w': "w' = w2\<lparr>pendingWrites := assign ?p (pendingWrites w2),
                          flushAttempt := 0, flushInProgress := False\<rparr>"
      by (simp_all add: flushPendingWrites_def Let_def)
    from w' have fields: "pendingWrites w' = assign ?p (pendingWrites w2)"
      "flushMetrics w' = flushMetrics w2" "\<not> flushInProgress w'" "incoming w' = incoming w2"
      by simp_all
    have "pendingWrites w2 = arrived w w'"
      using eff(1) by (rule absorbed_arrived) (simp_all add: fields)
    with eff Inl r fields show ?thesis
      by simp
  qed
qed


text \<open>
  The buffer is a JavaScript object: its keys stay distinct through every request and
  every flush.
\<close>

lemma buffer_keys_distinct:
  assumes "distinct (map fst (pendingWrites w))"
  shows "distinct (map fst (pendingWrites (snd (storageOp_set args w))))"
    and "distinct (map fst (pendingWrites (snd (flushPendingWrites w))))"
    and "distinct (map fst (pendingWrites (new_worker m arrivals)))"
proof -
  show "distinct (map fst (pendingWrites (snd (storageOp_set args w))))"
    using assms by (simp add: storageOp_set_def mergePending_def scheduleFlush_def
        clearTimeout_def ensureInitialized_def Let_def distinct_assign split: option.splits)
  show "distinct (map fst (pendingWrites (new_worker m arrivals)))"
    by (simp add: new_worker_def)
  show "distinct (map fst (pendingWrites (snd (flushPendingWrites w))))"
  proof (cases "pendingWrites w \<noteq> [] \<and> \<not> flushInProgress w")
    case False
    with assms show ?thesis by (auto simp: flushPendingWrites_def)
  next
    case True
    then have run: "pendingWrites w \<noteq> []" "\<not> flushInProgress w" by simp_all
    have eq: "flushPendingWrites w = (fst (flushPendingWrites w), snd (flushPendingWrites w))"
      by simp
    from flushPendingWrites_runs[OF run eq] assms show ?thesis
      by (cases "resolved (fst (flushPendingWrites w))")
         (simp_all add: distinct_arrived distinct_assign)
  qed
qed

text \<open>
  Its keys are also in the order of \<^verbatim>\<open>Object.keys\<close>, integer-like keys first, through
  every request and every flush.
\<close>

lemma js_ordered_arrived: "js_ordered (arrived w w')"
  unfolding arrived_def by (rule js_ordered_merge_all) (simp add: js_ordered_def)

lemma buffer_keys_ordered:
  assumes "js_ordered (pendingWrites w)"
  shows "js_ordered (pendingWrites (snd (storageOp_set args w)))"
    and "js_ordered (pendingWrites (snd (flushPendingWrites w)))"
    and "js_ordered (pendingWrites (new_worker m arrivals))"
proof -
  show "js_ordered (pendingWrites (snd (storageOp_set args w)))"
    using assms by (simp add: storageOp_set_def mergePending_def scheduleFlush_def
        clearTimeout_def ensureInitialized_def Let_def js_ordered_assign split: option.splits)
  show "js_ordered (pendingWrites (new_worker m arrivals))"
    by (simp add: new_worker_def js_ordered_def)
  show "js_ordered (pendingWrites (snd (flushPendingWrites w)))"
  proof (cases "pendingWrites w \<noteq> [] \<and> \<not> flushInProgress w")
    case False
    with assms show ?thesis by (auto simp: flushPendingWrites_def)
  next
    case True
    then have run: "pendingWrites w \<noteq> []" "\<not> flushInProgress w" by simp_all
    have eq: "flushPendingWrites w = (fst (flushPendingWrites w), snd (flushPendingWrites w))"
      by simp
    from flushPendingWrites_runs[OF run eq] assms show ?thesis
      by (cases "resolved (fst (flushPendingWrites w))")
         (simp_all add: js_ordered_arrived js_ordered_assign)
  qed
qed

lemma integer_like_keys_first:
  "assign [] [(''b'', v), (''10'', v'), (''2'', v'')] = [(''2'', v''), (''10'', v'), (''b'', v)]"
  by (simp add: assign_def obj_put_def precedes_def is_index_def num_val_def)

lemma flush_failure_ran:
  assumes "flushPendingWrites w = (Inl e, w')"
  shows "pendingWrites w \<noteq> []" "\<not> flushInProgress w"
  using assms by (auto simp: flushPendingWrites_def split: if_splits)

text \<open>
  Claim C4.  When a flush ends in a permanent chunk failure, the buffer it leaves is the
  whole snapshot taken at its start merged with the writes that arrived during the
  flush, an arrived value taking precedence for its key; the keys reported by
  \<^verbatim>\<open>status\<close> are those of the snapshot and of the arrivals, so none is dropped;
  \<open>failedFlushCount\<close> has grown by exactly one and the flush guard is released.
\<close>

theorem failed_flush_rebuffers:
  assumes "distinct (map fst (pendingWrites w))"
    and "flushPendingWrites w = (Inl e, w')"
  shows "pendingWrites w' = assign (pendingWrites w) (arrived w w')
       \<and> (\<forall>k. map_of (pendingWrites w') k =
                (case map_of (arrived w w') k of
                   Some v \<Rightarrow> Some v
                 | None \<Rightarrow> map_of (pendingWrites w) k))
       \<and> set (map fst (pendingWrites w)) \<union> set (map fst (arrived w w'))
           = set (fst (storageOp_status w'))
       \<and> failedFlushCount (flushMetrics w') = failedFlushCount (flushMetrics w) + 1
       \<and> \<not> flushInProgress w'"
proof -
  from flushPendingWrites_runs[OF flush_failure_ran[OF assms(2)] assms(2)]
  have p: "pendingWrites w' = assign (pendingWrites w) (arrived w w')"
    and c: "failedFlushCount (flushMetrics w') = failedFlushCount (flushMetrics w) + 1"
    and f: "\<not> flushInProgress w'"
    by simp_all
  have m: "map_of (pendingWrites w') k =
      (case map_of (arrived w w') k of Some v \<Rightarrow> Some v | None \<Rightarrow> map_of (pendingWrites w) k)" for k
    unfolding p by (simp add: map_of_assign[OF distinct_arrived] map_add_def)
  have k: "set (map fst (pendingWrites w)) \<union> set (map fst (arrived w w'))
           = set (fst (storageOp_status w'))"
    by (simp add: storageOp_status_def p keys_assign)
  from p c f m k show ?thesis by blast
qed


lemma outcome_nil: "script st = [] \<Longrightarrow> outcome st = (True, st)"
  by (simp add: outcome_def)

lemma initialize_ok:
  assumes "queue st = None" and "script st = []" and "\<not> initialized st"
  shows "initialized (snd (initialize q st))" "queue (snd (initialize q st)) = None"
    "script (snd (initialize q st)) = []" "store (snd (initialize q st)) = store st"
    "calls (snd (initialize q st)) = calls st @ [Read q True]"
  using assms by (simp_all add: initialize_def enqueue_def storage_get_def outcome_nil)

lemma set_op_ok:
  assumes "queue st = None" and "script st = []" and "initialized st"
  shows "fst (set_op items st) = Inr ()"
    "initialized (snd (set_op items st))" "queue (snd (set_op items st)) = None"
    "script (snd (set_op items st)) = []"
    "store (snd (set_op items st)) = store st ++ items"
    "calls (snd (set_op items st)) = calls st @ [Read AllKeys True, Write (store st ++ items) True]"
  using assms
  by (simp_all add: set_op_def enqueue_def setInternal_def storage_get_def storage_set_def
      outcome_nil outcome_def map_add_self)

lemma ensureInitialized_frame [simp]:
  "pendingWrites (ensureInitialized q w) = pendingWrites w"
  "pendingFlushTimer (ensureInitialized q w) = pendingFlushTimer w"
  "timers (ensureInitialized q w) = timers w"
  "nextTimer (ensureInitialized q w) = nextTimer w"
  "flushInProgress (ensureInitialized q w) = flushInProgress w"
  "flushMetrics (ensureInitialized q w) = flushMetrics w"
  "incoming (ensureInitialized q w) = incoming w"
  "trace (ensureInitialized q w) = trace w"
  by (simp_all add: ensureInitialized_def)

lemma ensureInitialized_ok:
  assumes "queue (storageManager w) = None" and "script (storageManager w) = []"
  shows "initialized (storageManager (ensureInitialized q w))"
    "queue (storageManager (ensureInitialized q w)) = None"
    "script (storageManager (ensureInitialized q w)) = []"
    "store (storageManager (ensureInitialized q w)) = store (storageManager w)"
    "filter (\<lambda>c. \<not> is_read c) (calls (storageManager (ensureInitialized q w)))
       = filter (\<lambda>c. \<not> is_read c) (calls (storageManager w))"
  using assms initialize_ok[of "storageManager w" q]
  by (auto simp: ensureInitialized_def)

lemma mergePending_timers:
  assumes "fst ` set (timers w) \<subseteq> set_option (pendingFlushTimer w)"
  shows "timers (mergePending args w) = [(nextTimer w, 100)]"
    "pendingFlushTimer (mergePending args w) = Some (nextTimer w)"
    "nextTimer (mergePending args w) = nextTimer w + 1"
proof -
  have "filter (\<lambda>(i, d). i \<noteq> h) (timers w) = []" if "pendingFlushTimer w = Some h" for h
    using assms that by (auto simp: filter_empty_conv)
  moreover have "timers w = []" if "pendingFlushTimer w = None"
    using assms that by auto
  ultimately show "timers (mergePending args w) = [(nextTimer w, 100)]"
    "pendingFlushTimer (mergePending args w) = Some (nextTimer w)"
    "nextTimer (mergePending args w) = nextTimer w + 1"
    by (auto simp: mergePending_def scheduleFlush_def clearTimeout_def Let_def split: option.splits)
qed

lemma storageOp_set_frame [simp]:
  "pendingWrites (snd (storageOp_set args w)) = assign (pendingWrites w) args"
  "flushInProgress (snd (storageOp_set args w)) = flushInProgress w"
  "flushMetrics (snd (storageOp_set args w)) = flushMetrics w"
  "incoming (snd (storageOp_set args w)) = incoming w"
  "trace (snd (storageOp_set args w)) = trace w"
  "storageManager (snd (storageOp_set args w)) = storageManager (ensureInitialized (Defaults Map.empty) w)"
  by (simp_all add: storageOp_set_def)

lemma storageOp_set_timers:
  assumes "fst ` set (timers w) \<subseteq> set_option (pendingFlushTimer w)"
  shows "timers (snd (storageOp_set args w)) = [(nextTimer w, 100)]"
    "pendingFlushTimer (snd (storageOp_set args w)) = Some (nextTimer w)"
    "nextTimer (snd (storageOp_set args w)) = nextTimer w + 1"
  using mergePending_timers[of "ensureInitialized (Defaults Map.empty) w" args] assms
  by (simp_all add: storageOp_set_def)

lemma suspend_idle: "incoming w = [] \<Longrightarrow> suspend w = w"
  by (simp add: suspend_def)

lemma writeChunk_first_try:
  assumes "queue (storageManager w) = None" and "script (storageManager w) = []"
    and "initialized (storageManager w)" and "incoming w = []"
  shows "writeChunkWithRetry c 1 w =
     (Inr True,
      w\<lparr>storageManager := snd (set_op (map_of c) (storageManager w)),
        flushMetrics := (flushMetrics w)\<lparr>flushedCount := flushedCount (flushMetrics w) + 1,
                                         lastFlushError := None\<rparr>,
        trace := trace w @ [ChunkWrite c 1 True]\<rparr>)"
proof -
  obtain m1 where s: "set_op (map_of c) (storageManager w) = (Inr (), m1)"
    using set_op_ok(1)[OF assms(1-3), of "map_of c"]
    by (cases "set_op (map_of c) (storageManager w)") auto
  show ?thesis
    unfolding writeChunkWithRetry.simps[of c 1 w]
    by (simp add: s Let_def suspend_idle assms(4))
qed

text \<open>
  Claim C8.  From an idle flusher whose adapter calls succeed, \<^verbatim>\<open>set({a: v1})\<close> followed
  by \<^verbatim>\<open>set({a: v2})\<close> before the timer fires leaves one buffer entry \<open>a: v2\<close> and one
  live timer of 100 ms, and writes nothing; when that timer fires, one chunk holding
  \<open>a: v2\<close> is written at the first attempt, the only adapter write since the start is
  that of \<open>a: v2\<close> merged over the store, and no timer and no pending write remain.
\<close>

theorem debounce_collapse:
  assumes "pendingWrites w = []" and "\<not> flushInProgress w" and "incoming w = []"
    and "fst ` set (timers w) \<subseteq> set_option (pendingFlushTimer w)"
    and "queue (storageManager w) = None" and "script (storageManager w) = []"
  shows "pendingWrites (snd (storageOp_set [(a, v2)] (snd (storageOp_set [(a, v1)] w)))) = [(a, v2)]
       \<and> timers (snd (storageOp_set [(a, v2)] (snd (storageOp_set [(a, v1)] w))))
           = [(nextTimer w + 1, 100)]
       \<and> new_events w (snd (storageOp_set [(a, v2)] (snd (storageOp_set [(a, v1)] w)))) = []
       \<and> filter (\<lambda>c. \<not> is_read c)
            (new_calls (storageManager w)
               (storageManager (snd (storageOp_set [(a, v2)] (snd (storageOp_set [(a, v1)] w)))))) = []
       \<and> new_events (snd (storageOp_set [(a, v2)] (snd (storageOp_set [(a, v1)] w))))
            (fire (nextTimer w + 1) (snd (storageOp_set [(a, v2)] (snd (storageOp_set [(a, v1)] w)))))
           = [ChunkWrite [(a, v2)] 1 True]
       \<and> filter (\<lambda>c. \<not> is_read c)
            (new_calls (storageManager w)
               (storageManager (fire (nextTimer w + 1)
                  (snd (storageOp_set [(a, v2)] (snd (storageOp_set [(a, v1)] w)))))))
           = [Write (store (storageManager w) ++ [a \<mapsto> v2]) True]
       \<and> store (storageManager (fire (nextTimer w + 1)
                  (snd (storageOp_set [(a, v2)] (snd (storageOp_set [(a, v1)] w)))))) a = Some v2
       \<and> pendingWrites (fire (nextTimer w + 1)
                  (snd (storageOp_set [(a, v2)] (snd (storageOp_set [(a, v1)] w))))) = []
       \<and> timers (fire (nextTimer w + 1)
                  (snd (storageOp_set [(a, v2)] (snd (storageOp_set [(a, v1)] w))))) = []"
proof -
  let ?w1 = "snd (storageOp_set [(a, v1)] w)"
  let ?w2 = "snd (storageOp_set [(a, v2)] ?w1)"
  let ?h = "Suc (nextTimer w)"
  let ?m0 = "storageManager w"
  let ?m1 = "storageManager ?w1"
  let ?m2 = "storageManager ?w2"
  note t1 = storageOp_set_timers[OF assms(4), of "[(a, v1)]"]
  have sub1: "fst ` set (timers ?w1) \<subseteq> set_option (pendingFlushTimer ?w1)"
    by (simp add: t1)
  note t2 = storageOp_set_timers[OF sub1, of "[(a, v2)]"]
  have p2: "pendingWrites ?w2 = [(a, v2)]"
    by (simp add: assms(1) assign_def obj_put_def)
  have tm2: "timers ?w2 = [(?h, 100)]"
    by (simp add: t2 t1)
  have m1: "initialized ?m1" "queue ?m1 = None" "script ?m1 = []" "store ?m1 = store ?m0"
    "filter (\<lambda>c. \<not> is_read c) (calls ?m1) = filter (\<lambda>c. \<not> is_read c) (calls ?m0)"
    using ensureInitialized_ok[OF assms(5,6), of "Defaults Map.empty"] by simp_all
  have m2: "?m2 = ?m1"
    using m1(1) by (simp add: ensureInitialized_def)
  have calls_mono: "\<exists>cs. calls ?m1 = calls ?m0 @ cs"
    using initialize_ok(5)[OF assms(5,6), of "Defaults Map.empty"]
    by (cases "initialized ?m0") (auto simp: ensureInitialized_def)
  then obtain cs where cs: "calls ?m1 = calls ?m0 @ cs" by blast
  with m1(5) have cs_reads: "filter (\<lambda>c. \<not> is_read c) cs = []" by simp
  define wc where "wc = clearTimeout ?h ?w2"
  have wc: "pendingWrites wc = [(a, v2)]" "\<not> flushInProgress wc" "incoming wc = []"
    "storageManager wc = ?m1" "timers wc = []" "trace wc = trace w"
    using p2 tm2 m2 assms(2,3) by (simp_all add: wc_def clearTimeout_def)
  define wf where "wf = wc\<lparr>flushInProgress := True, pendingWrites := []\<rparr>"
  have wf: "incoming wf = []" "storageManager wf = ?m1" "timers wf = []" "trace wf = trace w"
    using wc by (simp_all add: wf_def)
  define wd where "wd = wf\<lparr>storageManager := snd (set_op (map_of [(a, v2)]) (storageManager wf)),
        flushMetrics := (flushMetrics wf)\<lparr>flushedCount := flushedCount (flushMetrics wf) + 1,
                                         lastFlushError := None\<rparr>,
        trace := trace wf @ [ChunkWrite [(a, v2)] 1 True]\<rparr>"
  have wd: "pendingWrites wd = []" "timers wd = []"
    "storageManager wd = snd (set_op (map_of [(a, v2)]) ?m1)"
    "trace wd = trace w @ [ChunkWrite [(a, v2)] 1 True]"
    using wf by (simp_all add: wd_def wf_def)
  have first: "writeChunkWithRetry [(a, v2)] 1 wf = (Inr True, wd)"
    unfolding wd_def by (rule writeChunk_first_try) (use wf m1 in simp_all)
  have chunk: "chunkOf [(a, v2)] (take chunkSize (drop 0 [a])) = [(a, v2)]"
    by (simp add: chunkOf_def chunkSize_def obj_put_def)
  have rest: "flushLoop [(a, v2)] [a] (0 + chunkSize) wd = (Inr True, wd)"
    by (subst flushLoop.simps) (simp add: chunkSize_def)
  have lt: "0 < length [a]" by simp
  have loop: "flushLoop [(a, v2)] [a] 0 wf = (Inr True, wd)"
    by (subst flushLoop.simps) (simp only: lt if_True chunk first rest prod.case sum.case)
  have flush: "flushPendingWrites wc = (Inr (Some True), wd\<lparr>flushAttempt := 0, flushInProgress := False\<rparr>)"
    unfolding flushPendingWrites_def
    by (simp add: wc Let_def loop[unfolded wf_def])
  have fire: "fire ?h ?w2 = wd\<lparr>flushAttempt := 0, flushInProgress := False\<rparr>"
    using flush tm2 by (simp add: fire_def wc_def)
  note so = set_op_ok[OF m1(2,3,1), of "map_of [(a, v2)]"]
  have f_trace: "trace (fire ?h ?w2) = trace w @ [ChunkWrite [(a, v2)] 1 True]"
    using wd by (simp add: fire)
  have f_mgr: "storageManager (fire ?h ?w2) = snd (set_op (map_of [(a, v2)]) ?m1)"
    using wd by (simp add: fire)
  have f_pending: "pendingWrites (fire ?h ?w2) = []" and f_timers: "timers (fire ?h ?w2) = []"
    using wd by (simp_all add: fire)
  have f_calls: "calls (storageManager (fire ?h ?w2))
      = calls ?m0 @ cs @ [Read AllKeys True, Write (store ?m0 ++ [a \<mapsto> v2]) True]"
    using so cs m1 by (simp add: f_mgr)
  have f_store: "store (storageManager (fire ?h ?w2)) a = Some v2"
    using so by (simp add: f_mgr)
  have c3: "new_events w ?w2 = []"
    by (simp add: new_events_def)
  have c4: "filter (\<lambda>c. \<not> is_read c) (new_calls ?m0 ?m2) = []"
    unfolding m2 using cs cs_reads by (simp add: new_calls_def)
  have c5: "new_events ?w2 (fire ?h ?w2) = [ChunkWrite [(a, v2)] 1 True]"
    using f_trace by (simp add: new_events_def)
  have c6: "filter (\<lambda>c. \<not> is_read c) (new_calls ?m0 (storageManager (fire ?h ?w2)))
      = [Write (store ?m0 ++ [a \<mapsto> v2]) True]"
    using cs_reads by (simp add: new_calls_def f_calls)
  have h_eq: "nextTimer w + 1 = Suc (nextTimer w)" by simp
  show ?thesis
    unfolding h_eq by (intro conjI; fact p2 tm2 c3 c4 c5 c6 f_store f_pending f_timers)
qed

lemmas worker_eval =
  flushPendingWrites_def flushLoop.simps writeChunkWithRetry.simps chunkOf_def chunkSize_def
  suspend_def mergePending_def scheduleFlush_def clearTimeout_def assign_def new_worker_def
  demo_worker_def Let_def storageOp_status_def arrived_def merge_all_def new_events_def

theorem failed_flush_rebuffers_witness:
  "distinct (map fst (pendingWrites (demo_worker [False] [[[(''a'', VNum 9)]]])))
   \<and> fst (flushPendingWrites (demo_worker [False] [[[(''a'', VNum 9)]]])) = Inl AdapterFailure
   \<and> pendingWrites (snd (flushPendingWrites (demo_worker [False] [[[(''a'', VNum 9)]]])))
       = [(''a'', VNum 9), (''b'', VNum 2)]
   \<and> fst (storageOp_status (snd (flushPendingWrites (demo_worker [False] [[[(''a'', VNum 9)]]]))))
       = [''a'', ''b'']
   \<and> failedFlushCount (flushMetrics (snd (flushPendingWrites (demo_worker [False] [[[(''a'', VNum 9)]]]))))
       = 1"
proof -
  let ?w = "demo_worker [False] [[[(''a'', VNum 9)]]]"
  have d: "distinct (map fst (pendingWrites ?w))"
    by (simp add: demo_worker_def new_worker_def)
  have r: "fst (flushPendingWrites ?w) = Inl AdapterFailure"
    by (simp add: worker_eval manager_eval words_manager_def)
  then have run: "flushPendingWrites ?w = (Inl AdapterFailure, snd (flushPendingWrites ?w))"
    by (metis prod.collapse)
  have arr: "arrived ?w (snd (flushPendingWrites ?w)) = [(''a'', VNum 9)]"
    by (simp add: worker_eval manager_eval words_manager_def)
  have p: "pendingWrites ?w = [(''a'', VNum 1), (''b'', VNum 2)]"
    and c: "failedFlushCount (flushMetrics ?w) = 0"
    by (simp_all add: demo_worker_def new_worker_def)
  from failed_flush_rebuffers[OF d run]
  have "pendingWrites (snd (flushPendingWrites ?w)) = assign (pendingWrites ?w) (arrived ?w (snd (flushPendingWrites ?w)))"
    and "set (map fst (pendingWrites ?w)) \<union> set (map fst (arrived ?w (snd (flushPendingWrites ?w))))
           = set (fst (storageOp_status (snd (flushPendingWrites ?w))))"
    and "failedFlushCount (flushMetrics (snd (flushPendingWrites ?w))) = failedFlushCount (flushMetrics ?w) + 1"
    by blast+
  then have "pendingWrites (snd (flushPendingWrites ?w)) = [(''a'', VNum 9), (''b'', VNum 2)]"
    and "failedFlushCount (flushMetrics (snd (flushPendingWrites ?w))) = 1"
    unfolding arr p c
    by (simp_all add: assign_def obj_put_def precedes_def is_index_def num_val_def)
  with d r show ?thesis by (simp add: storageOp_status_def)
qed


theorem debounce_collapse_witness:
  "pendingWrites fresh_worker = [] \<and> \<not> flushInProgress fresh_worker \<and> incoming fresh_worker = []
   \<and> timers fresh_worker = []
   \<and> queue (storageManager fresh_worker) = None \<and> script (storageManager fresh_worker) = []
   \<and> pendingWrites (snd (storageOp_set [(''a'', VNum 2)] (snd (storageOp_set [(''a'', VNum 1)] fresh_worker))))
       = [(''a'', VNum 2)]
   \<and> new_events (snd (storageOp_set [(''a'', VNum 2)] (snd (storageOp_set [(''a'', VNum 1)] fresh_worker))))
        (fire (nextTimer fresh_worker + 1)
           (snd (storageOp_set [(''a'', VNum 2)] (snd (storageOp_set [(''a'', VNum 1)] fresh_worker)))))
       = [ChunkWrite [(''a'', VNum 2)] 1 True]
   \<and> store (storageManager (fire (nextTimer fresh_worker + 1)
           (snd (storageOp_set [(''a'', VNum 2)] (snd (storageOp_set [(''a'', VNum 1)] fresh_worker))))))
        ''a'' = Some (VNum 2)"
proof -
  have h: "pendingWrites fresh_worker = []" "\<not> flushInProgress fresh_worker"
    "incoming fresh_worker = []"
    "fst ` set (timers fresh_worker) \<subseteq> set_option (pendingFlushTimer fresh_worker)"
    "queue (storageManager fresh_worker) = None" "script (storageManager fresh_worker) = []"
    and t: "timers fresh_worker = []"
    by (simp_all add: fresh_worker_def new_worker_def new_StorageManager_def)
  from debounce_collapse[OF h, of "''a''" "VNum 2" "VNum 1"] h(1,2,3,5,6) t
  show ?thesis by blast
qed

end
